theory Spec2Isabelle
  imports Main "HOL-Library.Word"
begin

section \<open>Data model of the master-side replication engine\<close>

text \<open>
  The replication progress of a segment or of one of its replicas.  The constructor of
  \<open>ReplicatedSegment\<close> builds \<open>queued(true, 0, 0, false)\<close>, which fixes the order of the
  fields: open, bytes, epoch, close.  \<open>bytes\<close> is a \<open>uint32_t\<close>, \<open>epoch\<close> a \<open>uint64_t\<close>.
\<close>

record Progress =
  "open" :: bool
  bytes :: "32 word"
  epoch :: "64 word"
  close :: bool

text \<open>
  Modelled from the spec: the header ReplicatedSegment.h (the declarations of Progress,
  Replica, getCommitted, replicaIsPrimary and MAX_WRITE_RPCS_IN_FLIGHT) is not among the
  sources.  A default-constructed Progress has nothing opened, sent or closed.
\<close>

definition Progress_new :: Progress where
  "Progress_new = \<lparr>open = False, bytes = 0, epoch = 0, close = False\<rparr>"

text \<open>
  Modelled from the spec: the componentwise minimum of two Progress values, used by
  getCommitted ("the componentwise minimum of committed across all replicas").
\<close>

definition Progress_min :: "Progress \<Rightarrow> Progress \<Rightarrow> Progress" where
  "Progress_min p other =
     \<lparr>open = (open p \<and> open other),
      bytes = (if bytes other < bytes p then bytes other else bytes p),
      epoch = (if epoch other < epoch p then epoch other else epoch p),
      close = (close p \<and> close other)\<rparr>"

text \<open>
  Modelled from the spec: the strict order used in \<open>replica.sent < queued\<close>, "lexicographic
  on (open, bytes, close) with epoch compared independently".
\<close>

definition Progress_less :: "Progress \<Rightarrow> Progress \<Rightarrow> bool" where
  "Progress_less p other =
     ((\<not> open p \<and> open other)
      \<or> (open p = open other \<and> bytes p < bytes other)
      \<or> (open p = open other \<and> bytes p = bytes other \<and> \<not> close p \<and> close other)
      \<or> epoch p < epoch other)"

text \<open>The componentwise order of the invariant \<open>committed \<le> acked \<le> sent \<le> queued\<close>.\<close>

definition Progress_le :: "Progress \<Rightarrow> Progress \<Rightarrow> bool" where
  "Progress_le p other =
     ((open p \<longrightarrow> open other) \<and> bytes p \<le> bytes other
      \<and> (close p \<longrightarrow> close other) \<and> epoch p \<le> epoch other)"

text \<open>
  Modelled from the spec: ServerId.h is not among the sources.  A server id is a pair
  (id, generation); a default-constructed id is the invalid one, which the backup
  selector also returns when no backup is eligible.
\<close>

datatype ServerId = ServerId (serverIndex: "32 word") (generation: "32 word") | InvalidServerId

definition isValid :: "ServerId \<Rightarrow> bool" where
  "isValid i = (i \<noteq> InvalidServerId)"

text \<open>A certificate is opaque to the replication engine; it is only passed along.\<close>

type_synonym Certificate = nat

text \<open>
  The arguments of a write RPC, in the order \<open>performWrite\<close> passes them to
  \<open>writeRpc.construct\<close>; the source segment's bytes are not copied.  \<open>rpcCancelled\<close> records
  a call of \<open>cancel()\<close>, which leaves the RPC object in its \<open>Tub\<close>.
\<close>

record WriteSegmentRpc =
  rpcBackupId :: ServerId
  rpcMasterId :: ServerId
  rpcSegmentId :: "64 word"
  rpcEpoch :: "64 word"
  rpcOffset :: "32 word"
  rpcLength :: "32 word"
  rpcCertificate :: "Certificate option"
  rpcOpen :: bool
  rpcClose :: bool
  rpcPrimary :: bool
  rpcCancelled :: bool

record FreeSegmentRpc =
  freeBackupId :: ServerId
  freeMasterId :: ServerId
  freeSegmentId :: "64 word"

text \<open>
  Modelled from the spec: the Replica record (C1 of the spec): backupId, isActive,
  replicateAtomically, sent, acked, committed and the optional outstanding write and
  free RPC.
\<close>

record Replica =
  isActive :: bool
  backupId :: ServerId
  committed :: Progress
  acked :: Progress
  sent :: Progress
  freeRpc :: "FreeSegmentRpc option"
  writeRpc :: "WriteSegmentRpc option"
  replicateAtomically :: bool

text \<open>
  Modelled from the spec: a replica is "created inactive", "activated by start(backupId)"
  and "reset on backup failure".  \<open>reset()\<close> gives back the freshly constructed replica;
  \<open>failed()\<close> does the same and marks the slot for atomic re-replication (the lost-open
  protocol "re-replicates the opening data atomically").
\<close>

definition Replica_new :: Replica where
  "Replica_new =
     \<lparr>isActive = False, backupId = InvalidServerId, committed = Progress_new,
      acked = Progress_new, sent = Progress_new, freeRpc = None, writeRpc = None,
      replicateAtomically = False\<rparr>"

definition Replica_start :: "ServerId \<Rightarrow> Replica \<Rightarrow> Replica" where
  "Replica_start b r = r\<lparr>backupId := b, isActive := True\<rparr>"

definition Replica_reset :: "Replica \<Rightarrow> Replica" where
  "Replica_reset r = Replica_new"

definition Replica_failed :: "Replica \<Rightarrow> Replica" where
  "Replica_failed r = Replica_new\<lparr>replicateAtomically := True\<rparr>"

text \<open>
  The fields of \<open>ReplicatedSegment\<close> that the member functions read or write.
  \<open>followingSegment\<close> is a pointer to another ReplicatedSegment: an address in the
  manager's store below.  \<open>scheduled\<close> is the flag of the \<open>Task\<close> base class that
  \<open>Task::schedule()\<close> sets and \<open>isScheduled()\<close> reads.
\<close>

record ReplicatedSegment =
  masterId :: ServerId
  segmentId :: "64 word"
  normalLogSegment :: bool
  maxBytesPerWriteRpc :: "32 word"
  queued :: Progress
  queuedCertificate :: Certificate
  openLen :: "32 word"
  openingWriteCertificate :: Certificate
  freeQueued :: bool
  followingSegment :: "nat option"
  precedingSegmentCloseCommitted :: bool
  precedingSegmentOpenCommitted :: bool
  recoveringFromLostOpenReplicas :: bool
  replicas :: "Replica list"
  scheduled :: bool

text \<open>\<open>ReplicatedSegment::schedule\<close>: nothing is scheduled when there are no replicas.\<close>

definition schedule :: "ReplicatedSegment \<Rightarrow> ReplicatedSegment" where
  "schedule s = (if replicas s = [] then s else s\<lparr>scheduled := True\<rparr>)"

text \<open>
  The constructor: \<open>appended\<close> is what \<open>segment->getAppendedLength(openingWriteCertificate)\<close>
  returns, the length of the segment's header and its certificate.
\<close>

definition ReplicatedSegment_new ::
  "ServerId \<Rightarrow> 64 word \<Rightarrow> bool \<Rightarrow> nat \<Rightarrow> 32 word \<Rightarrow> 32 word \<times> Certificate \<Rightarrow> ReplicatedSegment" where
  "ReplicatedSegment_new master segId normal numReplicas maxBytes appended =
     schedule
       \<lparr>masterId = master, segmentId = segId, normalLogSegment = normal,
        maxBytesPerWriteRpc = maxBytes,
        queued = \<lparr>open = True, bytes = fst appended, epoch = 0, close = False\<rparr>,
        queuedCertificate = snd appended,
        openLen = fst appended,
        openingWriteCertificate = snd appended,
        freeQueued = False, followingSegment = None,
        precedingSegmentCloseCommitted = True, precedingSegmentOpenCommitted = True,
        recoveringFromLostOpenReplicas = False,
        replicas = replicate numReplicas Replica_new,
        scheduled = False\<rparr>"

text \<open>
  Modelled from the spec: \<open>getCommitted()\<close> "is the componentwise minimum of committed
  across all replicas".  The minimum starts from \<open>queued\<close>, and a slot that is not active
  has committed nothing.
\<close>

fun getCommitted_loop :: "Progress \<Rightarrow> Replica list \<Rightarrow> Progress" where
  "getCommitted_loop p [] = p"
| "getCommitted_loop p (r # rs) =
     (if isActive r then getCommitted_loop (Progress_min p (committed r)) rs
      else Progress_new)"

definition getCommitted :: "ReplicatedSegment \<Rightarrow> Progress" where
  "getCommitted s = getCommitted_loop (queued s) (replicas s)"

subsection \<open>close and handleBackupFailure\<close>

datatype error = AssertionFailed | DanglingSegment | UncaughtException

text \<open>
  \<open>ReplicatedSegment::close\<close>; \<open>appended\<close> is the result of
  \<open>segment->getAppendedLength(certificate)\<close>.  The assertion is a branch of the model.
\<close>

definition close_segment ::
  "32 word \<times> Certificate \<Rightarrow> ReplicatedSegment \<Rightarrow> error + ReplicatedSegment" where
  "close_segment appended s =
     (if close (queued s) then Inl AssertionFailed
      else Inr (schedule (s\<lparr>queued := (queued s)\<lparr>close := True, bytes := fst appended\<rparr>,
                             queuedCertificate := snd appended\<rparr>)))"

text \<open>
  The loop of \<open>ReplicatedSegment::handleBackupFailure\<close> over the replicas.  It returns
  the replicas, \<open>someOpenReplicaLost\<close> and whether \<open>schedule()\<close> was called.
\<close>

fun handleBackupFailure_loop ::
  "ServerId \<Rightarrow> Replica list \<Rightarrow> bool \<Rightarrow> bool \<Rightarrow> Replica list \<times> bool \<times> bool" where
  "handleBackupFailure_loop failedId [] someOpenReplicaLost sched =
     ([], someOpenReplicaLost, sched)"
| "handleBackupFailure_loop failedId (r # rs) someOpenReplicaLost sched =
     (if \<not> isActive r then
        (case handleBackupFailure_loop failedId rs someOpenReplicaLost sched of
           (rs', l, c) \<Rightarrow> (r # rs', l, c))
      else if backupId r \<noteq> failedId then
        (case handleBackupFailure_loop failedId rs someOpenReplicaLost sched of
           (rs', l, c) \<Rightarrow> (r # rs', l, c))
      else
        (case handleBackupFailure_loop failedId rs
                (someOpenReplicaLost \<or> (\<not> close (committed r) \<and> \<not> replicateAtomically r))
                True of
           (rs', l, c) \<Rightarrow> (Replica_failed r # rs', l, c)))"

definition handleBackupFailure :: "ServerId \<Rightarrow> ReplicatedSegment \<Rightarrow> ReplicatedSegment" where
  "handleBackupFailure failedId s =
     (case handleBackupFailure_loop failedId (replicas s) False False of
        (rs', someOpenReplicaLost, sched) \<Rightarrow>
          (let s1 = s\<lparr>replicas := rs'\<rparr>;
               s2 = (if sched then schedule s1 else s1)
           in if someOpenReplicaLost
              then s2\<lparr>queued := (queued s2)\<lparr>epoch := epoch (queued s2) + 1\<rparr>,
                      recoveringFromLostOpenReplicas := True\<rparr>
              else s2))"

text \<open>The replicas of a segment that \<open>handleBackupFailure failedId\<close> resets.\<close>

definition lostReplica :: "ServerId \<Rightarrow> Replica \<Rightarrow> bool" where
  "lostReplica failedId r = (isActive r \<and> backupId r = failedId)"

definition lostOpenReplica :: "ServerId \<Rightarrow> Replica \<Rightarrow> bool" where
  "lostOpenReplica failedId r =
     (lostReplica failedId r \<and> \<not> close (committed r) \<and> \<not> replicateAtomically r)"

subsection \<open>The manager's store and the external collaborators\<close>

text \<open>
  Modelled from the spec: UpdateReplicationEpochTask.h is not among the sources.  The
  task keeps, per segment id, the desired minimum epoch and the epoch confirmed durable
  at the coordinator; \<open>isAtLeast(segmentId, epoch)\<close> is true iff \<open>confirmed \<ge> epoch\<close>, and
  \<open>updateToAtLeast(segmentId, epoch)\<close> raises the desired value.
\<close>

record UpdateReplicationEpochTask =
  desired :: "64 word \<Rightarrow> 64 word"
  confirmed :: "64 word \<Rightarrow> 64 word"

definition isAtLeast :: "UpdateReplicationEpochTask \<Rightarrow> 64 word \<Rightarrow> 64 word \<Rightarrow> bool" where
  "isAtLeast t segId e = (e \<le> confirmed t segId)"

definition updateToAtLeast ::
  "64 word \<Rightarrow> 64 word \<Rightarrow> UpdateReplicationEpochTask \<Rightarrow> UpdateReplicationEpochTask" where
  "updateToAtLeast segId e t =
     t\<lparr>desired := (desired t)(segId := (if desired t segId < e then e else desired t segId))\<rparr>"

text \<open>An RPC handed to the transport.\<close>

datatype RpcRequest = WriteRequest WriteSegmentRpc | FreeRequest FreeSegmentRpc

text \<open>
  The state shared by the ReplicatedSegments of one ReplicaManager: the segments
  themselves, by address, the counter \<open>writeRpcsInFlight\<close>, the shared
  \<open>replicationEpoch\<close> task, and the RPCs issued so far, oldest first.
\<close>

record ReplicaManager =
  segments :: "nat \<Rightarrow> ReplicatedSegment option"
  writeRpcsInFlight :: "32 word"
  replicationEpoch :: UpdateReplicationEpochTask
  issuedRpcs :: "RpcRequest list"

text \<open>
  What \<open>isReady()\<close> and \<open>wait()\<close> of an outstanding RPC yield: not ready yet, completed, or
  one of the two exceptions \<open>performWrite\<close> catches.
\<close>

datatype RpcOutcome = NotReady | Completed | ServerNotUpException | BackupOpenRejectedException

text \<open>
  The collaborators of one \<open>performTask\<close> call that are outside the sources: the backup
  selector, the outcome of the outstanding RPC of each replica slot, and two
  declarations of the absent header, the constant \<open>MAX_WRITE_RPCS_IN_FLIGHT\<close> and
  \<open>replicaIsPrimary\<close> (by replica slot).
\<close>

record Env =
  MAX_WRITE_RPCS_IN_FLIGHT :: "32 word"
  replicaIsPrimary :: "nat \<Rightarrow> bool"
  selectPrimary :: "ServerId list \<Rightarrow> ServerId"
  selectSecondary :: "ServerId list \<Rightarrow> ServerId"
  writeRpcResult :: "nat \<Rightarrow> RpcOutcome"
  freeRpcResult :: "nat \<Rightarrow> RpcOutcome"

definition putSegment :: "nat \<Rightarrow> ReplicatedSegment \<Rightarrow> ReplicaManager \<Rightarrow> ReplicaManager" where
  "putSegment k s m = m\<lparr>segments := (segments m)(k \<mapsto> s)\<rparr>"

definition setReplica :: "nat \<Rightarrow> Replica \<Rightarrow> ReplicatedSegment \<Rightarrow> ReplicatedSegment" where
  "setReplica i r s = s\<lparr>replicas := (replicas s)[i := r]\<rparr>"

definition issue :: "RpcRequest \<Rightarrow> ReplicaManager \<Rightarrow> ReplicaManager" where
  "issue rq m = m\<lparr>issuedRpcs := issuedRpcs m @ [rq]\<rparr>"

subsection \<open>performFree\<close>

text \<open>
  \<open>ReplicatedSegment::performFree\<close> for replica slot \<open>i\<close> of the segment at address \<open>k\<close>.
  A ready free RPC is cleaned up whether \<open>wait()\<close> returns or throws
  \<open>ServerNotUpException\<close>; no other exception is caught.
\<close>

definition performFree :: "Env \<Rightarrow> nat \<Rightarrow> nat \<Rightarrow> ReplicaManager \<Rightarrow> error + ReplicaManager" where
  "performFree env k i m =
     (case segments m k of
        None \<Rightarrow> Inl DanglingSegment
      | Some s \<Rightarrow>
          (let r = replicas s ! i in
           if \<not> isActive r then Inr m
           else if freeRpc r \<noteq> None then
             (case freeRpcResult env i of
                NotReady \<Rightarrow> Inr (putSegment k (schedule s) m)
              | Completed \<Rightarrow> Inr (putSegment k (setReplica i (Replica_reset r) s) m)
              | ServerNotUpException \<Rightarrow>
                  Inr (putSegment k (setReplica i (Replica_reset r) s) m)
              | BackupOpenRejectedException \<Rightarrow> Inl UncaughtException)
           else if writeRpc r \<noteq> None then Inl AssertionFailed
           else
             (let rpc = \<lparr>freeBackupId = backupId r, freeMasterId = masterId s,
                         freeSegmentId = segmentId s\<rparr>
              in Inr (issue (FreeRequest rpc)
                       (putSegment k (schedule (setReplica i (r\<lparr>freeRpc := Some rpc\<rparr>) s)) m)))))"

subsection \<open>performWrite\<close>

text \<open>
  The successful completion of a write RPC: \<open>acked\<close> advances to \<open>sent\<close>, and \<open>committed\<close>
  to \<open>acked\<close> if \<open>acked == queued\<close> or \<open>acked.bytes == openLen\<close>.
\<close>

definition Replica_acknowledge :: "Progress \<Rightarrow> 32 word \<Rightarrow> Replica \<Rightarrow> Replica" where
  "Replica_acknowledge q ol r =
     (let r1 = r\<lparr>acked := sent r\<rparr>
      in if acked r1 = q \<or> bytes (acked r1) = ol then r1\<lparr>committed := acked r1\<rparr> else r1)"

text \<open>
  The two statements after it: the following segment learns that this segment's open,
  and then its close, is committed; after the close the pointer is dropped.
\<close>

definition notifyFollowing :: "nat \<Rightarrow> ReplicaManager \<Rightarrow> error + ReplicaManager" where
  "notifyFollowing k m =
     (case segments m k of
        None \<Rightarrow> Inl DanglingSegment
      | Some s \<Rightarrow>
          (case followingSegment s of
             None \<Rightarrow> Inr m
           | Some f \<Rightarrow>
               (if \<not> open (getCommitted s) \<and> \<not> close (getCommitted s) then Inr m
                else
                  (case segments m f of
                     None \<Rightarrow> Inl DanglingSegment
                   | Some fs \<Rightarrow>
                       (let m1 = (if open (getCommitted s)
                                  then putSegment f (fs\<lparr>precedingSegmentOpenCommitted := True\<rparr>) m
                                  else m)
                        in if close (getCommitted s) then
                             (case segments m1 f of
                                None \<Rightarrow> Inl DanglingSegment
                              | Some fs1 \<Rightarrow>
                                  (let m2 = putSegment f
                                              (fs1\<lparr>precedingSegmentCloseCommitted := True\<rparr>) m1
                                   in case segments m2 k of
                                        None \<Rightarrow> Inl DanglingSegment
                                      | Some s2 \<Rightarrow>
                                          Inr (putSegment k (s2\<lparr>followingSegment := None\<rparr>) m2)))
                           else Inr m1)))))"

text \<open>
  The end of the branch for a ready RPC, after the try block: the RPC object is
  destroyed, the counter decremented, and the task rescheduled if work remains.
\<close>

definition finishWrite :: "nat \<Rightarrow> nat \<Rightarrow> ReplicaManager \<Rightarrow> error + ReplicaManager" where
  "finishWrite k i m =
     (case segments m k of
        None \<Rightarrow> Inl DanglingSegment
      | Some s \<Rightarrow>
          (let r = (replicas s ! i)\<lparr>writeRpc := None\<rparr>;
               s1 = setReplica i r s;
               s2 = (if committed r \<noteq> queued s1 \<or> recoveringFromLostOpenReplicas s1
                     then schedule s1 else s1)
           in Inr ((putSegment k s2 m)\<lparr>writeRpcsInFlight := writeRpcsInFlight m - 1\<rparr>)))"

text \<open>The branch of \<open>performWrite\<close> for a replica whose write RPC is outstanding.\<close>

definition completeWrite :: "Env \<Rightarrow> nat \<Rightarrow> nat \<Rightarrow> ReplicaManager \<Rightarrow> error + ReplicaManager" where
  "completeWrite env k i m =
     (case segments m k of
        None \<Rightarrow> Inl DanglingSegment
      | Some s \<Rightarrow>
          (let r = replicas s ! i in
           case writeRpcResult env i of
             NotReady \<Rightarrow> Inr (putSegment k (schedule s) m)
           | Completed \<Rightarrow>
               (case notifyFollowing k
                       (putSegment k
                          (setReplica i (Replica_acknowledge (queued s) (openLen s) r) s) m) of
                  Inl e \<Rightarrow> Inl e
                | Inr m1 \<Rightarrow> finishWrite k i m1)
           | ServerNotUpException \<Rightarrow>
               finishWrite k i (putSegment k (setReplica i (r\<lparr>sent := acked r\<rparr>) s) m)
           | BackupOpenRejectedException \<Rightarrow>
               finishWrite k i (putSegment k (setReplica i (Replica_reset r) s) m)))"

text \<open>
  The three statements that every send ends with: the RPC is handed to the transport
  and kept in the replica, \<open>writeRpcsInFlight\<close> is incremented, the task rescheduled.
  \<open>r1\<close> is the replica with the RPC and its new \<open>sent\<close>.
\<close>

definition startWrite ::
  "nat \<Rightarrow> nat \<Rightarrow> WriteSegmentRpc \<Rightarrow> Replica \<Rightarrow> ReplicatedSegment \<Rightarrow> ReplicaManager \<Rightarrow> ReplicaManager" where
  "startWrite k i rpc r1 s m =
     issue (WriteRequest rpc)
       ((putSegment k (schedule (setReplica i r1 s)) m)
          \<lparr>writeRpcsInFlight := writeRpcsInFlight m + 1\<rparr>)"

text \<open>
  The opening write of a replica that is not yet durably open: the first \<open>openLen\<close>
  bytes, with the open flag.  The certificate is left out when the replica is
  re-replicated atomically.
\<close>

definition openingWriteRpc :: "Env \<Rightarrow> nat \<Rightarrow> ReplicatedSegment \<Rightarrow> Replica \<Rightarrow> WriteSegmentRpc" where
  "openingWriteRpc env i s r =
     \<lparr>rpcBackupId = backupId r, rpcMasterId = masterId s,
      rpcSegmentId = segmentId s, rpcEpoch = epoch (queued s),
      rpcOffset = 0, rpcLength = openLen s,
      rpcCertificate = (if replicateAtomically r then None
                        else Some (openingWriteCertificate s)),
      rpcOpen = True, rpcClose = False,
      rpcPrimary = replicaIsPrimary env i, rpcCancelled = False\<rparr>"

definition Replica_sentOpen :: "ReplicatedSegment \<Rightarrow> WriteSegmentRpc \<Rightarrow> Replica \<Rightarrow> Replica" where
  "Replica_sentOpen s rpc r =
     r\<lparr>writeRpc := Some rpc,
       sent := (sent r)\<lparr>open := True, bytes := openLen s, epoch := epoch (queued s)\<rparr>\<rparr>"

definition sendOpen :: "Env \<Rightarrow> nat \<Rightarrow> nat \<Rightarrow> ReplicaManager \<Rightarrow> error + ReplicaManager" where
  "sendOpen env k i m =
     (case segments m k of
        None \<Rightarrow> Inl DanglingSegment
      | Some s \<Rightarrow>
          (let r = replicas s ! i in
           if \<not> precedingSegmentOpenCommitted s then Inr (putSegment k (schedule s) m)
           else if writeRpcsInFlight m = MAX_WRITE_RPCS_IN_FLIGHT env
           then Inr (putSegment k (schedule s) m)
           else
             (let rpc = openingWriteRpc env i s r
              in Inr (startWrite k i rpc (Replica_sentOpen s rpc r) s m))))"

text \<open>
  The end of the branch that sends data: the throttle on \<open>writeRpcsInFlight\<close>, then the
  construction of the RPC and the update of \<open>sent\<close>.
\<close>

definition dataWriteRpc ::
  "Env \<Rightarrow> nat \<Rightarrow> ReplicatedSegment \<Rightarrow> Replica \<Rightarrow> 32 word \<Rightarrow> 32 word \<Rightarrow> Certificate option \<Rightarrow> bool
     \<Rightarrow> WriteSegmentRpc" where
  "dataWriteRpc env i s r offset len certificateToSend sendClose =
     \<lparr>rpcBackupId = backupId r, rpcMasterId = masterId s,
      rpcSegmentId = segmentId s, rpcEpoch = epoch (queued s),
      rpcOffset = offset, rpcLength = len,
      rpcCertificate = certificateToSend,
      rpcOpen = False, rpcClose = sendClose,
      rpcPrimary = replicaIsPrimary env i, rpcCancelled = False\<rparr>"

definition Replica_sentData ::
  "ReplicatedSegment \<Rightarrow> WriteSegmentRpc \<Rightarrow> 32 word \<Rightarrow> bool \<Rightarrow> Replica \<Rightarrow> Replica" where
  "Replica_sentData s rpc len sendClose r =
     r\<lparr>writeRpc := Some rpc,
       sent := (sent r)\<lparr>bytes := bytes (sent r) + len, epoch := epoch (queued s),
                        close := sendClose\<rparr>\<rparr>"

definition issueWrite ::
  "Env \<Rightarrow> nat \<Rightarrow> nat \<Rightarrow> 32 word \<Rightarrow> 32 word \<Rightarrow> Certificate option \<Rightarrow> bool \<Rightarrow> ReplicaManager
     \<Rightarrow> error + ReplicaManager" where
  "issueWrite env k i offset len certificateToSend sendClose m =
     (case segments m k of
        None \<Rightarrow> Inl DanglingSegment
      | Some s \<Rightarrow>
          (let r = replicas s ! i in
           if writeRpcsInFlight m = MAX_WRITE_RPCS_IN_FLIGHT env
           then Inr (putSegment k (schedule s) m)
           else
             (let rpc = dataWriteRpc env i s r offset len certificateToSend sendClose
              in Inr (startWrite k i rpc (Replica_sentData s rpc len sendClose r) s m))))"

text \<open>
  A write of data that has not been sent yet, to a replica that is durably open: its
  length, its certificate and its close flag.  A write cut down to
  \<open>maxBytesPerWriteRpc\<close> carries no certificate; the close flag goes out only with the
  last byte, and not before the following segment is durably open.
\<close>

definition writeLength :: "ReplicatedSegment \<Rightarrow> Replica \<Rightarrow> 32 word" where
  "writeLength s r =
     (if maxBytesPerWriteRpc s < bytes (queued s) - bytes (sent r)
      then maxBytesPerWriteRpc s else bytes (queued s) - bytes (sent r))"

definition writeCertificate :: "ReplicatedSegment \<Rightarrow> Replica \<Rightarrow> Certificate option" where
  "writeCertificate s r =
     (if maxBytesPerWriteRpc s < bytes (queued s) - bytes (sent r)
      then None else Some (queuedCertificate s))"

definition writeSendClose :: "ReplicatedSegment \<Rightarrow> Replica \<Rightarrow> bool" where
  "writeSendClose s r =
     (close (queued s) \<and> bytes (sent r) + writeLength s r = bytes (queued s))"

definition sendWrite :: "Env \<Rightarrow> nat \<Rightarrow> nat \<Rightarrow> ReplicaManager \<Rightarrow> error + ReplicaManager" where
  "sendWrite env k i m =
     (case segments m k of
        None \<Rightarrow> Inl DanglingSegment
      | Some s \<Rightarrow>
          (let r = replicas s ! i in
           if \<not> precedingSegmentCloseCommitted s then Inr (putSegment k (schedule s) m)
           else
             (let offset = bytes (sent r);
                  len = writeLength s r;
                  certificateToSend = writeCertificate s r;
                  sendClose = writeSendClose s r
              in case (if sendClose then followingSegment s else None) of
                   None \<Rightarrow> issueWrite env k i offset len certificateToSend sendClose m
                 | Some f \<Rightarrow>
                     (case segments m f of
                        None \<Rightarrow> Inl DanglingSegment
                      | Some fs \<Rightarrow>
                          if \<not> open (getCommitted fs) then Inr (putSegment k (schedule s) m)
                          else issueWrite env k i offset len certificateToSend sendClose m))))"

text \<open>
  The part of \<open>performWrite\<close> after a backup has been chosen: wait on the outstanding
  RPC, or open the replica, or send more data.
\<close>

definition performWrite_active ::
  "Env \<Rightarrow> nat \<Rightarrow> nat \<Rightarrow> ReplicaManager \<Rightarrow> error + ReplicaManager" where
  "performWrite_active env k i m =
     (case segments m k of
        None \<Rightarrow> Inl DanglingSegment
      | Some s \<Rightarrow>
          (let r = replicas s ! i in
           if writeRpc r \<noteq> None then completeWrite env k i m
           else if \<not> open (committed r) then sendOpen env k i m
           else if Progress_less (sent r) (queued s) then sendWrite env k i m
           else Inl AssertionFailed))"

text \<open>
  \<open>ReplicatedSegment::performWrite\<close> for replica slot \<open>i\<close> of the segment at address \<open>k\<close>.
  The constraints handed to the backup selector are the backups of the active replicas.
\<close>

definition performWrite :: "Env \<Rightarrow> nat \<Rightarrow> nat \<Rightarrow> ReplicaManager \<Rightarrow> error + ReplicaManager" where
  "performWrite env k i m =
     (case segments m k of
        None \<Rightarrow> Inl DanglingSegment
      | Some s \<Rightarrow>
          (let r = replicas s ! i in
           if freeRpc r \<noteq> None then Inl AssertionFailed
           else if isActive r \<and> committed r = queued s then Inr m
           else if \<not> isActive r then
             (let constraints = map backupId (filter isActive (replicas s));
                  b = (if replicaIsPrimary env i then selectPrimary env constraints
                       else selectSecondary env constraints)
              in if \<not> isValid b then Inr (putSegment k (schedule s) m)
                 else performWrite_active env k i
                        (putSegment k (setReplica i (Replica_start b r) s) m))
           else performWrite_active env k i m))"

subsection \<open>performTask\<close>

text \<open>The \<open>foreach\<close> loops over the replica slots; an error ends the loop.\<close>

fun foreach_replica ::
  "(nat \<Rightarrow> ReplicaManager \<Rightarrow> error + ReplicaManager) \<Rightarrow> nat list \<Rightarrow> ReplicaManager
     \<Rightarrow> error + ReplicaManager" where
  "foreach_replica body [] m = Inr m"
| "foreach_replica body (i # is) m =
     (case body i m of Inl e \<Rightarrow> Inl e | Inr m1 \<Rightarrow> foreach_replica body is m1)"

text \<open>
  \<open>deleter.destroyAndFreeReplicatedSegment(this)\<close>: the manager forgets the segment.
\<close>

definition destroyAndFreeReplicatedSegment :: "nat \<Rightarrow> ReplicaManager \<Rightarrow> ReplicaManager" where
  "destroyAndFreeReplicatedSegment k m = m\<lparr>segments := (segments m)(k := None)\<rparr>"

text \<open>
  The last block of \<open>performTask\<close>: the recovery from lost open replicas.  On the path
  that destroyed the segment the flag was false, so nothing is left to do there.
\<close>

definition recoverFromLostOpenReplicas :: "nat \<Rightarrow> ReplicaManager \<Rightarrow> ReplicaManager" where
  "recoverFromLostOpenReplicas k m =
     (case segments m k of
        None \<Rightarrow> m
      | Some s \<Rightarrow>
          if recoveringFromLostOpenReplicas s then
            (if getCommitted s = queued s then
               (if isAtLeast (replicationEpoch m) (segmentId s) (epoch (queued s))
                then putSegment k (s\<lparr>recoveringFromLostOpenReplicas := False\<rparr>) m
                else (putSegment k (schedule s) m)
                       \<lparr>replicationEpoch :=
                          updateToAtLeast (segmentId s) (epoch (queued s)) (replicationEpoch m)\<rparr>)
             else putSegment k (schedule s) m)
          else m)"

text \<open>\<open>ReplicatedSegment::performTask\<close> of the segment at address \<open>k\<close>.\<close>

definition performTask :: "Env \<Rightarrow> nat \<Rightarrow> ReplicaManager \<Rightarrow> error + ReplicaManager" where
  "performTask env k m =
     (case segments m k of
        None \<Rightarrow> Inl DanglingSegment
      | Some s \<Rightarrow>
          (case (if freeQueued s \<and> \<not> recoveringFromLostOpenReplicas s then
                   (case foreach_replica (performFree env k) [0..<length (replicas s)] m of
                      Inl e \<Rightarrow> Inl e
                    | Inr m1 \<Rightarrow>
                        (case segments m1 k of
                           None \<Rightarrow> Inl DanglingSegment
                         | Some s1 \<Rightarrow>
                             if \<not> scheduled s1
                             then Inr (destroyAndFreeReplicatedSegment k m1)
                             else Inr m1))
                 else if \<not> freeQueued s then
                   foreach_replica (performWrite env k) [0..<length (replicas s)] m
                 else Inr m) of
             Inl e \<Rightarrow> Inl e
           | Inr m2 \<Rightarrow> Inr (recoverFromLostOpenReplicas k m2)))"

text \<open>
  Modelled from the spec: TaskQueue is not among the sources.  "The TaskQueue repeatedly
  picks a runnable ReplicatedSegment and calls its performTask"; a task is taken off the
  queue before it runs and re-enqueues itself through \<open>schedule()\<close>.  A task that is not
  scheduled is not run.
\<close>

definition taskQueue_performTask :: "Env \<Rightarrow> nat \<Rightarrow> ReplicaManager \<Rightarrow> error + ReplicaManager" where
  "taskQueue_performTask env k m =
     (case segments m k of
        None \<Rightarrow> Inr m
      | Some s \<Rightarrow>
          if scheduled s then performTask env k (putSegment k (s\<lparr>scheduled := False\<rparr>) m)
          else Inr m)"

subsection \<open>sync and free\<close>

text \<open>
  The test that lets \<open>sync(offset)\<close> return, made before and after every step of the task
  queue.  The default argument of \<open>offset\<close> is \<open>~0u\<close>.
\<close>

definition syncDone :: "32 word \<Rightarrow> ReplicatedSegment \<Rightarrow> bool" where
  "syncDone offset s =
     (\<not> recoveringFromLostOpenReplicas s
      \<and> (if offset = - 1 then close (getCommitted s) else offset \<le> bytes (getCommitted s)))"

text \<open>
  The statements of \<open>sync\<close> between the first test and the loop: \<open>queued\<close> is stretched to
  what the segment holds now.
\<close>

definition sync_enqueue :: "32 word \<times> Certificate \<Rightarrow> ReplicatedSegment \<Rightarrow> ReplicatedSegment" where
  "sync_enqueue appended s =
     (if bytes (queued s) < fst appended
      then schedule (s\<lparr>queued := (queued s)\<lparr>bytes := fst appended\<rparr>,
                       queuedCertificate := snd appended\<rparr>)
      else s)"

text \<open>
  The loop of \<open>sync\<close>.  Each element of \<open>steps\<close> is one call of \<open>taskQueue.performTask()\<close>:
  the task that the queue runs and its collaborators.  The loop has no exit but the
  test; when the steps run out before the test holds, \<open>sync\<close> has not returned: \<open>None\<close>.
\<close>

fun sync_loop ::
  "nat \<Rightarrow> 32 word \<Rightarrow> (nat \<times> Env) list \<Rightarrow> ReplicaManager \<Rightarrow> (error + ReplicaManager) option" where
  "sync_loop k offset [] m = None"
| "sync_loop k offset (step # steps) m =
     (case taskQueue_performTask (snd step) (fst step) m of
        Inl e \<Rightarrow> Some (Inl e)
      | Inr m1 \<Rightarrow>
          (case segments m1 k of
             None \<Rightarrow> Some (Inl DanglingSegment)
           | Some s \<Rightarrow>
               if syncDone offset s then Some (Inr m1) else sync_loop k offset steps m1))"

definition sync ::
  "nat \<Rightarrow> 32 word \<Rightarrow> 32 word \<times> Certificate \<Rightarrow> (nat \<times> Env) list \<Rightarrow> ReplicaManager
     \<Rightarrow> (error + ReplicaManager) option" where
  "sync k offset appended steps m =
     (case segments m k of
        None \<Rightarrow> Some (Inl DanglingSegment)
      | Some s \<Rightarrow>
          if syncDone offset s then Some (Inr m)
          else sync_loop k offset steps (putSegment k (sync_enqueue appended s) m))"

text \<open>
  \<open>ReplicatedSegment::free\<close> after its call of \<open>sync()\<close>: the three assertions, the
  cancellation of the outstanding write RPCs, and \<open>freeQueued\<close>.
\<close>

definition cancelWrite :: "Replica \<Rightarrow> Replica" where
  "cancelWrite r =
     (case writeRpc r of
        None \<Rightarrow> r
      | Some rpc \<Rightarrow> if isActive r then r\<lparr>writeRpc := Some (rpc\<lparr>rpcCancelled := True\<rparr>)\<rparr> else r)"

definition free_queue :: "nat \<Rightarrow> ReplicaManager \<Rightarrow> error + ReplicaManager" where
  "free_queue k m =
     (case segments m k of
        None \<Rightarrow> Inl DanglingSegment
      | Some s \<Rightarrow>
          if \<not> close (queued s) then Inl AssertionFailed
          else if followingSegment s \<noteq> None then Inl AssertionFailed
          else if \<not> close (getCommitted s) then Inl AssertionFailed
          else Inr (putSegment k
                      (schedule (s\<lparr>replicas := map cancelWrite (replicas s),
                                   freeQueued := True\<rparr>)) m))"

definition free ::
  "nat \<Rightarrow> 32 word \<times> Certificate \<Rightarrow> (nat \<times> Env) list \<Rightarrow> ReplicaManager
     \<Rightarrow> (error + ReplicaManager) option" where
  "free k appended steps m =
     (case sync k (- 1) appended steps m of
        None \<Rightarrow> None
      | Some (Inl e) \<Rightarrow> Some (Inl e)
      | Some (Inr m1) \<Rightarrow> Some (free_queue k m1))"

text \<open>
  Modelled from the spec: ReplicaManager.cc is not among the sources.  The manager's
  \<open>handleBackupFailure(failedId)\<close> "iterates every ReplicatedSegment"; this is its call on
  the segment at address \<open>k\<close>.
\<close>

definition handleBackupFailure_at :: "ServerId \<Rightarrow> nat \<Rightarrow> ReplicaManager \<Rightarrow> ReplicaManager" where
  "handleBackupFailure_at failedId k m =
     (case segments m k of
        None \<Rightarrow> m
      | Some s \<Rightarrow> putSegment k (handleBackupFailure failedId s) m)"

subsection \<open>Reachable states and the invariant\<close>

text \<open>
  Modelled from the spec: ReplicaManager.cc is not among the sources.  The manager starts
  without segments.  \<open>openSegment\<close> "links the new segment as followingSegment of the
  previous one", and what the previous segment has committed becomes the new segment's
  gating input.
\<close>

definition ReplicaManager_new :: ReplicaManager where
  "ReplicaManager_new =
     \<lparr>segments = (\<lambda>k. None), writeRpcsInFlight = 0,
      replicationEpoch = \<lparr>desired = (\<lambda>segId. 0), confirmed = (\<lambda>segId. 0)\<rparr>,
      issuedRpcs = []\<rparr>"

definition openSegment ::
  "nat \<Rightarrow> nat option \<Rightarrow> ReplicatedSegment \<Rightarrow> ReplicaManager \<Rightarrow> ReplicaManager" where
  "openSegment k preceding s m =
     (case (case preceding of
              None \<Rightarrow> None
            | Some p \<Rightarrow> (case segments m p of None \<Rightarrow> None | Some ps \<Rightarrow> Some (p, ps))) of
        None \<Rightarrow> putSegment k s m
      | Some (p, ps) \<Rightarrow>
          putSegment k
            (s\<lparr>precedingSegmentOpenCommitted := open (getCommitted ps),
               precedingSegmentCloseCommitted := close (getCommitted ps)\<rparr>)
            (putSegment p (ps\<lparr>followingSegment := Some k\<rparr>) m))"

text \<open>
  Modelled from the spec: the coordinator acknowledges the update of the replication
  epoch that \<open>updateToAtLeast\<close> asked for.
\<close>

definition replicationEpochConfirmed :: "ReplicaManager \<Rightarrow> ReplicaManager" where
  "replicationEpochConfirmed m =
     m\<lparr>replicationEpoch := (replicationEpoch m)\<lparr>confirmed := desired (replicationEpoch m)\<rparr>\<rparr>"

text \<open>
  The states that a manager reaches from its start by the operations of the log and of
  the failure monitor, in any order and with any collaborators: \<open>openSegment\<close>,
  \<open>close()\<close>, \<open>sync()\<close>, \<open>free()\<close>, \<open>handleBackupFailure()\<close> and \<open>performTask()\<close>, the
  last also as run by the task queue.  \<open>sync_enqueue\<close> and \<open>free_queue\<close> are the parts of
  \<open>sync\<close> and \<open>free\<close> outside the loop, which other operations may follow before the
  loop is over.  Three rules state what the callers guarantee: a segment is only
  appended to, so \<open>close()\<close> reads a length that is at least \<open>queued.bytes\<close>; nothing is
  appended to a segment after \<open>close()\<close>; and the 64-bit epoch does not overflow.
\<close>

inductive reachable :: "ReplicaManager \<Rightarrow> bool" where
  start: "reachable ReplicaManager_new"
| openSegment:
    "reachable m \<Longrightarrow> segments m k = None
       \<Longrightarrow> reachable (openSegment k preceding
             (ReplicatedSegment_new master segId normal numReplicas maxBytes appended) m)"
| close:
    "reachable m \<Longrightarrow> segments m k = Some s \<Longrightarrow> bytes (queued s) \<le> fst appended
       \<Longrightarrow> close_segment appended s = Inr s' \<Longrightarrow> reachable (putSegment k s' m)"
| sync_enqueue:
    "reachable m \<Longrightarrow> segments m k = Some s
       \<Longrightarrow> (close (queued s) \<longrightarrow> fst appended \<le> bytes (queued s))
       \<Longrightarrow> reachable (putSegment k (sync_enqueue appended s) m)"
| sync:
    "reachable m \<Longrightarrow> segments m k = Some s
       \<Longrightarrow> (close (queued s) \<longrightarrow> fst appended \<le> bytes (queued s))
       \<Longrightarrow> sync k offset appended steps m = Some (Inr m') \<Longrightarrow> reachable m'"
| free_queue:
    "reachable m \<Longrightarrow> free_queue k m = Inr m' \<Longrightarrow> reachable m'"
| free:
    "reachable m \<Longrightarrow> segments m k = Some s
       \<Longrightarrow> (close (queued s) \<longrightarrow> fst appended \<le> bytes (queued s))
       \<Longrightarrow> free k appended steps m = Some (Inr m') \<Longrightarrow> reachable m'"
| handleBackupFailure:
    "reachable m \<Longrightarrow> segments m k = Some s \<Longrightarrow> epoch (queued s) \<noteq> - 1
       \<Longrightarrow> reachable (handleBackupFailure_at failedId k m)"
| performTask:
    "reachable m \<Longrightarrow> performTask env k m = Inr m' \<Longrightarrow> reachable m'"
| taskQueue_performTask:
    "reachable m \<Longrightarrow> taskQueue_performTask env k m = Inr m' \<Longrightarrow> reachable m'"
| replicationEpochConfirmed:
    "reachable m \<Longrightarrow> reachable (replicationEpochConfirmed m)"

text \<open>
  The invariant of a replica, of a segment and of the manager.  Beyond the order
  \<open>committed \<le> acked \<le> sent \<le> queued\<close> it records what makes the order inductive: a
  replica that is not durably open has acknowledged at most the opening write and has no
  close in flight; an outstanding write RPC was sent to an opened replica; and a close
  is only sent, and only acknowledged, together with the last queued byte.
\<close>

definition repInv :: "Progress \<Rightarrow> 32 word \<Rightarrow> Replica \<Rightarrow> bool" where
  "repInv q ol r =
     (Progress_le (committed r) (acked r) \<and> Progress_le (acked r) (sent r)
      \<and> Progress_le (sent r) q
      \<and> (\<not> open (committed r) \<longrightarrow>
            bytes (acked r) \<le> ol \<and> \<not> close (sent r)
            \<and> (writeRpc r \<noteq> None \<longrightarrow> bytes (sent r) = ol))
      \<and> (writeRpc r \<noteq> None \<longrightarrow> open (sent r))
      \<and> (close (sent r) \<longrightarrow> bytes (sent r) = bytes q)
      \<and> (close (acked r) \<longrightarrow> bytes (acked r) = bytes q))"

definition segInv :: "ReplicatedSegment \<Rightarrow> bool" where
  "segInv s =
     (open (queued s) \<and> openLen s \<le> bytes (queued s)
      \<and> list_all (repInv (queued s) (openLen s)) (replicas s))"

definition managerInv :: "ReplicaManager \<Rightarrow> bool" where
  "managerInv m = (\<forall>k s. segments m k = Some s \<longrightarrow> segInv s)"

subsection \<open>Observing the RPCs of a step\<close>

text \<open>The RPCs issued between an earlier state \<open>m\<close> and a later state \<open>m'\<close>.\<close>

definition issuedBy :: "ReplicaManager \<Rightarrow> ReplicaManager \<Rightarrow> RpcRequest list" where
  "issuedBy m m' = drop (length (issuedRpcs m)) (issuedRpcs m')"



text \<open>
  Relations between the state before and after a step: the step issues only RPCs of one
  kind; it keeps the segment at address \<open>k\<close> alive with its identity, target and flags;
  it leaves the free RPCs of that segment's replicas alone.
\<close>

definition onlyIssues :: "(RpcRequest \<Rightarrow> bool) \<Rightarrow> ReplicaManager \<Rightarrow> ReplicaManager \<Rightarrow> bool" where
  "onlyIssues P m m' = (\<exists>new. issuedRpcs m' = issuedRpcs m @ new \<and> list_all P new)"

definition keepsSegment :: "nat \<Rightarrow> ReplicaManager \<Rightarrow> ReplicaManager \<Rightarrow> bool" where
  "keepsSegment k m m' =
     (\<forall>s. segments m k = Some s \<longrightarrow>
        (\<exists>s'. segments m' k = Some s' \<and> segmentId s' = segmentId s \<and> queued s' = queued s
            \<and> freeQueued s' = freeQueued s
            \<and> recoveringFromLostOpenReplicas s' = recoveringFromLostOpenReplicas s
            \<and> length (replicas s') = length (replicas s)))"

definition keepsFreeRpcs :: "nat \<Rightarrow> ReplicaManager \<Rightarrow> ReplicaManager \<Rightarrow> bool" where
  "keepsFreeRpcs k m m' =
     (\<forall>s. segments m k = Some s \<longrightarrow>
        (\<exists>s'. segments m' k = Some s' \<and> map freeRpc (replicas s') = map freeRpc (replicas s)))"

text \<open>
  Successive runs of the task of the segment at address \<open>k\<close>, one per element of \<open>envs\<close>.
\<close>

fun performTasks :: "nat \<Rightarrow> Env list \<Rightarrow> ReplicaManager \<Rightarrow> error + ReplicaManager" where
  "performTasks k [] m = Inr m"
| "performTasks k (env # envs) m =
     (case taskQueue_performTask env k m of
        Inl e \<Rightarrow> Inl e
      | Inr m1 \<Rightarrow> performTasks k envs m1)"

text \<open>The calls of \<open>taskQueue.performTask()\<close> alone, as the loop of \<open>sync\<close> makes them.\<close>

fun taskQueue_run :: "(nat \<times> Env) list \<Rightarrow> ReplicaManager \<Rightarrow> error + ReplicaManager" where
  "taskQueue_run [] m = Inr m"
| "taskQueue_run (step # steps) m =
     (case taskQueue_performTask (snd step) (fst step) m of
        Inl e \<Rightarrow> Inl e
      | Inr m1 \<Rightarrow> taskQueue_run steps m1)"

section \<open>The backup's replica store\<close>

text \<open>
  Modelled from the spec: BackupService.cc and the storage classes are not among the
  sources; only BackupServiceTest.cc is.  A frame holds the replica's bytes and the
  metadata "masterId, segmentId, capacity, certificate, closed, primary, epoch".
  \<open>recoveredFromStorage\<close> marks a frame that a restart found on storage, "a replica of
  this segment from a prior crash", as opposed to one opened by this process.
\<close>

record Frame =
  frameData :: "8 word list"
  frameCertificate :: "Certificate option"
  closed :: bool
  primary :: bool
  frameEpoch :: "64 word"
  recoveredFromStorage :: bool

text \<open>
  Modelled from the spec: the frame index "(masterId, segmentId) \<rightarrow> storage frame", the
  number of frames still free, the capacity of a frame, and the replication group
  handed back by an opening write.
\<close>

record BackupService =
  frames :: "ServerId \<times> 64 word \<Rightarrow> Frame option"
  freeFrames :: nat
  segmentSize :: nat
  replicationGroup :: "ServerId list"

record WriteSegmentRequest =
  reqMasterId :: ServerId
  reqSegmentId :: "64 word"
  reqEpoch :: "64 word"
  reqBytes :: "8 word list"
  reqOffset :: "32 word"
  reqLength :: "32 word"
  reqCertificate :: "Certificate option"
  reqOpen :: bool
  reqClose :: bool
  reqPrimary :: bool

datatype BackupError = BackupBadSegmentId | BackupSegmentOverflow | BackupOpenRejected

text \<open>The bytes of a frame after \<open>len\<close> bytes of the payload have been copied to \<open>offset\<close>.\<close>

definition copyIn :: "nat \<Rightarrow> nat \<Rightarrow> 8 word list \<Rightarrow> 8 word list \<Rightarrow> 8 word list" where
  "copyIn offset len payload frameBytes =
     take offset frameBytes @ take len (payload @ replicate len 0)
       @ drop (offset + len) frameBytes"

text \<open>
  Modelled from the spec: the write to a frame that passed the validation: "Enforces
  offset + length \<le> capacity.  If a certificate is provided, update the frame metadata.
  If close, seal the frame."  A frame that is already closed takes no write at all.
\<close>

definition writeFrame :: "WriteSegmentRequest \<Rightarrow> Frame \<Rightarrow> BackupError + Frame" where
  "writeFrame req f =
     (if closed f then Inl BackupBadSegmentId
      else if length (frameData f) < unat (reqOffset req) + unat (reqLength req)
      then Inl BackupSegmentOverflow
      else
        (let f1 = f\<lparr>frameData := copyIn (unat (reqOffset req)) (unat (reqLength req))
                                     (reqBytes req) (frameData f)\<rparr>;
             f2 = (case reqCertificate req of
                     None \<Rightarrow> f1
                   | Some c \<Rightarrow> f1\<lparr>frameCertificate := Some c, frameEpoch := reqEpoch req\<rparr>)
         in Inr (if reqClose req then f2\<lparr>closed := True\<rparr> else f2)))"

text \<open>
  Modelled from the spec: \<open>writeSegment\<close>.  "Validates: if open, allocate or re-use a
  frame; else frame must exist and be open."  It "fails with BadSegmentId on writes to a
  non-open or already-closed segment; SegmentOverflow on bounds errors; OpenRejected when
  out of frames or when the backup already holds a replica of this segment from a prior
  crash of the same master".  The result is the new state and the assigned group.
\<close>

definition writeSegment ::
  "WriteSegmentRequest \<Rightarrow> BackupService \<Rightarrow> BackupError + BackupService \<times> ServerId list" where
  "writeSegment req b =
     (let key = (reqMasterId req, reqSegmentId req) in
      case (case frames b key of
              Some f \<Rightarrow>
                if recoveredFromStorage f
                then (if reqOpen req then Inl BackupOpenRejected else Inl BackupBadSegmentId)
                else Inr (f, b)
            | None \<Rightarrow>
                if \<not> reqOpen req then Inl BackupBadSegmentId
                else if freeFrames b = 0 then Inl BackupOpenRejected
                else Inr (\<lparr>frameData = replicate (segmentSize b) 0, frameCertificate = None,
                            closed = False, primary = reqPrimary req,
                            frameEpoch = reqEpoch req, recoveredFromStorage = False\<rparr>,
                          b\<lparr>freeFrames := freeFrames b - 1\<rparr>)) of
        Inl e \<Rightarrow> Inl e
      | Inr (f, b1) \<Rightarrow>
          (case writeFrame req f of
             Inl e \<Rightarrow> Inl e
           | Inr f1 \<Rightarrow>
               Inr (b1\<lparr>frames := (frames b1)(key \<mapsto> f1)\<rparr>,
                    if reqOpen req then replicationGroup b1 else [])))"

text \<open>A write and \<open>n\<close> retries of it, each on the state the one before left.\<close>

fun retryWrite ::
  "nat \<Rightarrow> WriteSegmentRequest \<Rightarrow> BackupService \<Rightarrow> BackupError + BackupService \<times> ServerId list" where
  "retryWrite 0 req b = writeSegment req b"
| "retryWrite (Suc n) req b =
     (case writeSegment req b of
        Inl e \<Rightarrow> Inl e
      | Inr (b1, g) \<Rightarrow> retryWrite n req b1)"

section \<open>The recovery planner\<close>










section \<open>Example states\<close>

definition backup1 :: ServerId where
  "backup1 = ServerId 1 0"

definition backup2 :: ServerId where
  "backup2 = ServerId 2 0"

definition backup3 :: ServerId where
  "backup3 = ServerId 3 0"

text \<open>
  A segment of master 99.0 with id 88 and a header of 10 bytes, kept on three replicas:
  two on backup1, of which the first is open and the second durably closed, and an open
  one on backup2.
\<close>

definition openProgress :: Progress where
  "openProgress = \<lparr>open = True, bytes = 10, epoch = 0, close = False\<rparr>"

definition closedProgress :: Progress where
  "closedProgress = \<lparr>open = True, bytes = 10, epoch = 0, close = True\<rparr>"

definition replicaAt :: "ServerId \<Rightarrow> Progress \<Rightarrow> Replica" where
  "replicaAt b p =
     \<lparr>isActive = True, backupId = b, committed = p, acked = p, sent = p,
      freeRpc = None, writeRpc = None, replicateAtomically = False\<rparr>"

definition threeReplicaSegment :: ReplicatedSegment where
  "threeReplicaSegment =
     (ReplicatedSegment_new (ServerId 99 0) 88 True 3 30 (10, 7))
       \<lparr>queued := closedProgress,
        replicas := [replicaAt backup1 openProgress, replicaAt backup1 closedProgress,
                     replicaAt backup2 openProgress]\<rparr>"

text \<open>
  Collaborators that always complete the outstanding RPCs and hand out backup1 for
  primaries and backup2 for secondaries; the other pair hands out backup3.
\<close>

definition exampleEnv :: Env where
  "exampleEnv =
     \<lparr>MAX_WRITE_RPCS_IN_FLIGHT = 4, replicaIsPrimary = (\<lambda>i. i = 0),
      selectPrimary = (\<lambda>constraints. backup1), selectSecondary = (\<lambda>constraints. backup2),
      writeRpcResult = (\<lambda>i. Completed), freeRpcResult = (\<lambda>i. Completed)\<rparr>"

definition replacementEnv :: Env where
  "replacementEnv =
     \<lparr>MAX_WRITE_RPCS_IN_FLIGHT = 4, replicaIsPrimary = (\<lambda>i. i = 0),
      selectPrimary = (\<lambda>constraints. backup3), selectSecondary = (\<lambda>constraints. backup3),
      writeRpcResult = (\<lambda>i. Completed), freeRpcResult = (\<lambda>i. Completed)\<rparr>"

definition managerOf :: "(nat \<Rightarrow> ReplicatedSegment option) \<Rightarrow> ReplicaManager" where
  "managerOf segs =
     \<lparr>segments = segs, writeRpcsInFlight = 0,
      replicationEpoch = \<lparr>desired = (\<lambda>segId. 0), confirmed = (\<lambda>segId. 0)\<rparr>,
      issuedRpcs = []\<rparr>"

text \<open>A freshly constructed segment with a single replica, at address 0.\<close>

definition freshManager :: ReplicaManager where
  "freshManager =
     managerOf ((\<lambda>k. None)(0 \<mapsto> ReplicatedSegment_new (ServerId 99 0) 88 True 1 30 (10, 7)))"

text \<open>
  Segment 88 at address 0 has been closed by the log but its single replica is only
  durably open; segment 89 at address 1 follows it and is durably open.
\<close>

definition closingSegment :: ReplicatedSegment where
  "closingSegment =
     (ReplicatedSegment_new (ServerId 99 0) 88 True 1 30 (10, 7))
       \<lparr>queued := closedProgress, replicas := [replicaAt backup1 openProgress],
        followingSegment := Some 1\<rparr>"

definition headSegment :: ReplicatedSegment where
  "headSegment =
     (ReplicatedSegment_new (ServerId 99 0) 89 True 1 30 (10, 8))
       \<lparr>replicas := [replicaAt backup1 openProgress]\<rparr>"

definition twoSegments :: ReplicaManager where
  "twoSegments = managerOf ((\<lambda>k. None)(0 \<mapsto> closingSegment, 1 \<mapsto> headSegment))"

text \<open>Segment 88 alone, durably closed on its single replica.\<close>

definition closedSegment :: ReplicatedSegment where
  "closedSegment =
     (ReplicatedSegment_new (ServerId 99 0) 88 True 1 30 (10, 7))
       \<lparr>queued := closedProgress, replicas := [replicaAt backup1 closedProgress],
        scheduled := False\<rparr>"

definition closedManager :: ReplicaManager where
  "closedManager = managerOf ((\<lambda>k. None)(0 \<mapsto> closedSegment))"

text \<open>The segment with three replicas after the failure of backup1.\<close>

definition recoveringManager :: ReplicaManager where
  "recoveringManager =
     managerOf ((\<lambda>k. None)(0 \<mapsto> handleBackupFailure backup1 threeReplicaSegment))"

text \<open>
  Segment 88 with 20 bytes queued and certified on its single replica, which replaces a
  replica lost while open: the epoch is 1 and the coordinator has not confirmed it yet.
\<close>

definition caughtUpProgress :: Progress where
  "caughtUpProgress = \<lparr>open = True, bytes = 20, epoch = 1, close = False\<rparr>"

definition caughtUpSegment :: ReplicatedSegment where
  "caughtUpSegment =
     (ReplicatedSegment_new (ServerId 99 0) 88 True 1 30 (10, 7))
       \<lparr>queued := caughtUpProgress, queuedCertificate := 9,
        replicas := [(replicaAt backup3 caughtUpProgress)\<lparr>replicateAtomically := True\<rparr>],
        recoveringFromLostOpenReplicas := True\<rparr>"

definition caughtUpManager :: ReplicaManager where
  "caughtUpManager = managerOf ((\<lambda>k. None)(0 \<mapsto> caughtUpSegment))"

text \<open>Segment 88 with its 10 bytes of header durably open on its single replica.\<close>

definition openedSegment :: ReplicatedSegment where
  "openedSegment =
     (ReplicatedSegment_new (ServerId 99 0) 88 True 1 30 (10, 7))
       \<lparr>replicas := [replicaAt backup1 openProgress], scheduled := False\<rparr>"

definition openedManager :: ReplicaManager where
  "openedManager = managerOf ((\<lambda>k. None)(0 \<mapsto> openedSegment))"






text \<open>
  A backup with five free frames of 32 bytes, and the requests of BackupServiceTest:
  the opening write and the closing write of segment (99.0, 88), and the write of the
  string "test" with its terminator at offset 10.
\<close>

definition emptyBackup :: BackupService where
  "emptyBackup =
     \<lparr>frames = (\<lambda>key. None), freeFrames = 5, segmentSize = 32, replicationGroup = []\<rparr>"

definition openRequest :: WriteSegmentRequest where
  "openRequest =
     \<lparr>reqMasterId = ServerId 99 0, reqSegmentId = 88, reqEpoch = 0, reqBytes = [],
      reqOffset = 0, reqLength = 0, reqCertificate = Some 7,
      reqOpen = True, reqClose = False, reqPrimary = True\<rparr>"

definition closeRequest :: WriteSegmentRequest where
  "closeRequest = openRequest\<lparr>reqOpen := False, reqClose := True, reqPrimary := False\<rparr>"

definition rawStringRequest :: WriteSegmentRequest where
  "rawStringRequest =
     \<lparr>reqMasterId = ServerId 99 0, reqSegmentId = 88, reqEpoch = 0,
      reqBytes = [116, 101, 115, 116, 0],
      reqOffset = 10, reqLength = 5, reqCertificate = None,
      reqOpen = False, reqClose = False, reqPrimary = False\<rparr>"

section \<open>Basic facts about the store\<close>

lemma segments_putSegment [simp]: "segments (putSegment k s m) = (segments m)(k \<mapsto> s)"
  by (simp add: putSegment_def)

lemma issuedRpcs_putSegment [simp]: "issuedRpcs (putSegment k s m) = issuedRpcs m"
  by (simp add: putSegment_def)

lemma writeRpcsInFlight_putSegment [simp]:
  "writeRpcsInFlight (putSegment k s m) = writeRpcsInFlight m"
  by (simp add: putSegment_def)

lemma replicationEpoch_putSegment [simp]:
  "replicationEpoch (putSegment k s m) = replicationEpoch m"
  by (simp add: putSegment_def)

lemma segments_issue [simp]: "segments (issue rq m) = segments m"
  by (simp add: issue_def)

lemma issuedRpcs_issue [simp]: "issuedRpcs (issue rq m) = issuedRpcs m @ [rq]"
  by (simp add: issue_def)

lemma writeRpcsInFlight_issue [simp]: "writeRpcsInFlight (issue rq m) = writeRpcsInFlight m"
  by (simp add: issue_def)

lemma replicationEpoch_issue [simp]: "replicationEpoch (issue rq m) = replicationEpoch m"
  by (simp add: issue_def)

lemma issuedBy_self [simp]: "issuedBy m m = []"
  by (simp add: issuedBy_def)

lemma issuedBy_putSegment [simp]: "issuedBy (putSegment k s m) m' = issuedBy m m'"
  by (simp add: issuedBy_def)

lemma issuedBy_putSegment2 [simp]: "issuedBy m (putSegment k s m') = issuedBy m m'"
  by (simp add: issuedBy_def)

text \<open>The definitions that the evaluation of a concrete run unfolds.\<close>

lemmas evalDefs = exampleEnv_def replacementEnv_def managerOf_def freshManager_def closingSegment_def headSegment_def twoSegments_def
  closedSegment_def closedManager_def recoveringManager_def caughtUpProgress_def caughtUpSegment_def
  caughtUpManager_def openedSegment_def openedManager_def threeReplicaSegment_def
  ReplicatedSegment_new_def replicaAt_def backup1_def backup2_def backup3_def
  openProgress_def closedProgress_def
  taskQueue_performTask_def performTask_def schedule_def
   performWrite_def performWrite_active_def sendOpen_def sendWrite_def issueWrite_def
  startWrite_def openingWriteRpc_def Replica_sentOpen_def dataWriteRpc_def Replica_sentData_def
  writeLength_def writeCertificate_def writeSendClose_def completeWrite_def notifyFollowing_def finishWrite_def Replica_acknowledge_def
   recoverFromLostOpenReplicas_def Replica_start_def Replica_new_def Replica_reset_def Replica_failed_def Progress_new_def isValid_def  setReplica_def 
  getCommitted_def Progress_min_def Progress_less_def Let_def performFree_def destroyAndFreeReplicatedSegment_def
  handleBackupFailure_def free_def free_queue_def sync_def syncDone_def sync_enqueue_def cancelWrite_def isAtLeast_def updateToAtLeast_def
  putSegment_def issue_def issuedBy_def handleBackupFailure_at_def

lemmas backupDefs = emptyBackup_def openRequest_def closeRequest_def rawStringRequest_def
  writeSegment_def writeFrame_def copyIn_def Let_def

section \<open>handleBackupFailure\<close>

lemma handleBackupFailure_loop_eq:
  "handleBackupFailure_loop f rs l c =
     (map (\<lambda>r. if lostReplica f r then Replica_failed r else r) rs,
      l \<or> list_ex (lostOpenReplica f) rs,
      c \<or> list_ex (lostReplica f) rs)"
  by (induction rs arbitrary: l c) (auto simp: lostReplica_def lostOpenReplica_def)

lemma replicas_schedule [simp]: "replicas (schedule s) = replicas s"
  by (simp add: schedule_def)

lemma queued_schedule [simp]: "queued (schedule s) = queued s"
  by (simp add: schedule_def)

lemma recovering_schedule [simp]:
  "recoveringFromLostOpenReplicas (schedule s) = recoveringFromLostOpenReplicas s"
  by (simp add: schedule_def)

text \<open>
  Claim C2.  \<open>handleBackupFailure failedId\<close> replaces exactly the active replicas whose
  backupId is \<open>failedId\<close> by a reset, inactive replica and leaves every other slot as it
  was.  If at least one of the lost replicas was open (its close not committed) and not
  replicating atomically, \<open>queued.epoch\<close> grows by exactly one, however many replicas
  were lost, and \<open>recoveringFromLostOpenReplicas\<close> becomes true; otherwise neither
  changes.  The epoch changes if and only if such a replica was lost.
\<close>

theorem handleBackupFailure_resets_lost_replicas:
  "replicas (handleBackupFailure failedId s) =
     map (\<lambda>r. if isActive r \<and> backupId r = failedId then Replica_failed r else r) (replicas s)
   \<and> \<not> isActive (Replica_failed r)
   \<and> queued (handleBackupFailure failedId s) =
       (if list_ex (lostOpenReplica failedId) (replicas s)
        then (queued s)\<lparr>epoch := epoch (queued s) + 1\<rparr> else queued s)
   \<and> recoveringFromLostOpenReplicas (handleBackupFailure failedId s) =
       (list_ex (lostOpenReplica failedId) (replicas s) \<or> recoveringFromLostOpenReplicas s)
   \<and> (epoch (queued (handleBackupFailure failedId s)) \<noteq> epoch (queued s)
        \<longleftrightarrow> list_ex (lostOpenReplica failedId) (replicas s))"
  by (simp add: handleBackupFailure_def handleBackupFailure_loop_eq Let_def lostReplica_def
      Replica_failed_def Replica_new_def)

theorem handleBackupFailure_resets_lost_replicas_witness:
  "replicas (handleBackupFailure backup1 threeReplicaSegment) =
     [Replica_failed Replica_new, Replica_failed Replica_new, replicaAt backup2 openProgress]
   \<and> epoch (queued (handleBackupFailure backup1 threeReplicaSegment)) = 1
   \<and> recoveringFromLostOpenReplicas (handleBackupFailure backup1 threeReplicaSegment)
   \<and> handleBackupFailure backup3 threeReplicaSegment = threeReplicaSegment"
  using handleBackupFailure_resets_lost_replicas [of backup1 threeReplicaSegment]
    handleBackupFailure_resets_lost_replicas [of backup3 threeReplicaSegment]
  by (simp add: threeReplicaSegment_def ReplicatedSegment_new_def replicaAt_def backup1_def
      backup2_def backup3_def openProgress_def closedProgress_def lostOpenReplica_def
      lostReplica_def Replica_failed_def handleBackupFailure_def handleBackupFailure_loop_eq
      schedule_def)

section \<open>The close of a segment waits for the open of the following one\<close>

lemma finishWrite_issued: "finishWrite k i m = Inr m' \<Longrightarrow> issuedRpcs m' = issuedRpcs m"
  by (auto simp: finishWrite_def Let_def split: option.splits)

lemma notifyFollowing_issued: "notifyFollowing k m = Inr m' \<Longrightarrow> issuedRpcs m' = issuedRpcs m"
  by (auto simp: notifyFollowing_def Let_def split: option.splits if_splits)

lemma completeWrite_issued: "completeWrite env k i m = Inr m' \<Longrightarrow> issuedRpcs m' = issuedRpcs m"
  by (auto simp: completeWrite_def Let_def split: option.splits RpcOutcome.splits sum.splits
      dest!: finishWrite_issued notifyFollowing_issued)

lemma sendOpen_issued:
  "sendOpen env k i m = Inr m' \<Longrightarrow> WriteRequest w \<in> set (issuedBy m m')
     \<Longrightarrow> \<not> rpcClose w \<and> rpcOpen w"
  by (auto simp: sendOpen_def startWrite_def openingWriteRpc_def issuedBy_def Let_def
      split: option.splits if_splits)

lemma issueWrite_issued:
  "issueWrite env k i off len c sc m = Inr m' \<Longrightarrow> WriteRequest w \<in> set (issuedBy m m')
     \<Longrightarrow> rpcClose w = sc \<and> \<not> rpcOpen w \<and> rpcCertificate w = c"
  by (auto simp: issueWrite_def startWrite_def dataWriteRpc_def issuedBy_def Let_def
      split: option.splits if_splits)

lemma sendWrite_issued:
  "sendWrite env k i m = Inr m' \<Longrightarrow> segments m k = Some s \<Longrightarrow> followingSegment s = Some f
     \<Longrightarrow> WriteRequest w \<in> set (issuedBy m m') \<Longrightarrow> rpcClose w
     \<Longrightarrow> \<exists>fs. segments m f = Some fs \<and> open (getCommitted fs)"
  by (auto simp: sendWrite_def Let_def issuedBy_def split: option.splits if_splits
      dest!: issueWrite_issued[unfolded issuedBy_def])

lemma performWrite_active_issued:
  "performWrite_active env k i m = Inr m' \<Longrightarrow> segments m k = Some s
     \<Longrightarrow> followingSegment s = Some f
     \<Longrightarrow> WriteRequest w \<in> set (issuedBy m m') \<Longrightarrow> rpcClose w
     \<Longrightarrow> \<exists>fs. segments m f = Some fs \<and> open (getCommitted fs)"
  apply (simp add: performWrite_active_def Let_def split: if_splits)
    apply (drule completeWrite_issued, simp add: issuedBy_def)
   apply (drule sendOpen_issued, assumption, simp)
  apply (erule sendWrite_issued; assumption)
  done

text \<open>
  Claim C6.  Let the segment at address \<open>f\<close> be linked as the following segment of the
  segment at address \<open>k\<close>, a different segment.  Whenever \<open>performWrite\<close> on a replica of
  \<open>k\<close> issues a write RPC that carries the close flag, the following segment exists and
  its committed open is true: no closing write goes out while the following segment is
  not durably open.
\<close>

theorem performWrite_never_closes_before_following_open:
  assumes "segments m k = Some s" and "followingSegment s = Some f" and "f \<noteq> k"
    and "performWrite env k i m = Inr m'"
    and "WriteRequest w \<in> set (issuedBy m m')" and "rpcClose w"
  shows "\<exists>fs. segments m f = Some fs \<and> open (getCommitted fs)"
proof (cases "isActive (replicas s ! i)")
  case True
  with assms have "performWrite_active env k i m = Inr m'"
    by (auto simp: performWrite_def Let_def split: if_splits)
  from performWrite_active_issued [OF this assms(1,2,5,6)] show ?thesis .
next
  case False
  let ?m0 = "putSegment k (setReplica i (Replica_start
     (if replicaIsPrimary env i
      then selectPrimary env (map backupId (filter isActive (replicas s)))
      else selectSecondary env (map backupId (filter isActive (replicas s))))
     (replicas s ! i)) s) m"
  from False assms have act: "performWrite_active env k i ?m0 = Inr m'"
    by (auto simp: performWrite_def Let_def split: if_splits)
  have "\<exists>fs. segments ?m0 f = Some fs \<and> open (getCommitted fs)"
    by (rule performWrite_active_issued [OF act, where s = "the (segments ?m0 k)"])
      (use assms in \<open>simp_all add: setReplica_def\<close>)
  with assms(3) show ?thesis by simp
qed

theorem performWrite_never_closes_before_following_open_witness:
  "(\<exists>m' w. performWrite exampleEnv 0 0 twoSegments = Inr m'
      \<and> WriteRequest w \<in> set (issuedBy twoSegments m') \<and> rpcClose w)
   \<and> (\<exists>fs. segments twoSegments 1 = Some fs \<and> open (getCommitted fs))"
proof -
  have "\<exists>m' w. performWrite exampleEnv 0 0 twoSegments = Inr m'
      \<and> WriteRequest w \<in> set (issuedBy twoSegments m') \<and> rpcClose w"
    by (simp add: evalDefs)
  then obtain m' w where 1: "performWrite exampleEnv 0 0 twoSegments = Inr m'"
    and 2: "WriteRequest w \<in> set (issuedBy twoSegments m')" and 3: "rpcClose w"
    by blast
  have 4: "segments twoSegments 0 = Some closingSegment" and 5: "followingSegment closingSegment = Some 1"
    by (simp_all add: twoSegments_def managerOf_def closingSegment_def)
  from performWrite_never_closes_before_following_open [OF 4 5 _ 1 2 3] 1 2 3
  show ?thesis by blast
qed

section \<open>What a step of performFree and performWrite leaves alone\<close>

lemma onlyIssues_refl [simp]: "onlyIssues P m m"
  by (simp add: onlyIssues_def)


lemma onlyIssues_same: "issuedRpcs m' = issuedRpcs m \<Longrightarrow> onlyIssues P m m'"
  by (simp add: onlyIssues_def)


lemma keepsSegment_refl [simp]: "keepsSegment k m m"
  by (simp add: keepsSegment_def)


lemma keepsFreeRpcs_refl [simp]: "keepsFreeRpcs k m m"
  by (simp add: keepsFreeRpcs_def)



lemma schedule_fields [simp]:
  "segmentId (schedule s) = segmentId s" "freeQueued (schedule s) = freeQueued s"
  "followingSegment (schedule s) = followingSegment s" "openLen (schedule s) = openLen s"
  "masterId (schedule s) = masterId s"
  by (simp_all add: schedule_def)

lemma setReplica_fields [simp]:
  "segmentId (setReplica i r s) = segmentId s" "freeQueued (setReplica i r s) = freeQueued s"
  "queued (setReplica i r s) = queued s"
  "recoveringFromLostOpenReplicas (setReplica i r s) = recoveringFromLostOpenReplicas s"
  "followingSegment (setReplica i r s) = followingSegment s"
  "openLen (setReplica i r s) = openLen s"
  "replicas (setReplica i r s) = (replicas s)[i := r]"
  by (simp_all add: setReplica_def)





lemma putSegment_frame:
  "segments m k = Some s \<Longrightarrow> segmentId s' = segmentId s \<Longrightarrow> queued s' = queued s \<Longrightarrow> freeQueued s' = freeQueued s
   \<Longrightarrow> recoveringFromLostOpenReplicas s' = recoveringFromLostOpenReplicas s \<Longrightarrow> length (replicas s') = length (replicas s)
   \<Longrightarrow> keepsSegment k m (putSegment k s' m)"
  by (simp add: keepsSegment_def)

lemma putSegment_frame2:
  "segments m k = Some s \<Longrightarrow> map freeRpc (replicas s') = map freeRpc (replicas s)
   \<Longrightarrow> keepsFreeRpcs k m (putSegment k s' m)"
  by (simp add: keepsFreeRpcs_def)






lemma performWrite_unfold:
  assumes "performWrite env k i m = Inr m'" and "segments m k = Some s"
  shows "freeRpc (replicas s ! i) = None \<and>
    (m' = m \<or> m' = putSegment k (schedule s) m
     \<or> (isActive (replicas s ! i) \<and> performWrite_active env k i m = Inr m')
     \<or> (\<not> isActive (replicas s ! i) \<and>
         performWrite_active env k i
           (putSegment k (setReplica i (Replica_start
              (if replicaIsPrimary env i
               then selectPrimary env (map backupId (filter isActive (replicas s)))
               else selectSecondary env (map backupId (filter isActive (replicas s))))
              (replicas s ! i)) s) m) = Inr m'))"
  using assms by (simp add: performWrite_def Let_def split: if_splits)




section \<open>No write RPC after free\<close>

lemma recoverFromLostOpenReplicas_frame:
  "onlyIssues P m (recoverFromLostOpenReplicas k m)"
  by (simp add: recoverFromLostOpenReplicas_def onlyIssues_same split: option.splits)








section \<open>Recovery from lost open replicas comes before freeing\<close>




section \<open>The commit on the acknowledgement of a write\<close>

text \<open>
  On a successful completion \<open>acked\<close> becomes \<open>sent\<close>, and \<open>committed\<close> becomes \<open>acked\<close>
  exactly if \<open>acked == queued\<close> or \<open>acked.bytes == openLen\<close>.  The opening write carries
  its certificate exactly if the replica is not replicated atomically, while the bytes it
  sends are \<open>openLen\<close> in both cases.
\<close>

lemma Replica_acknowledge_acked:
  "acked (Replica_acknowledge q ol r) = sent r
   \<and> committed (Replica_acknowledge q ol r) =
       (if sent r = q \<or> bytes (sent r) = ol then sent r else committed r)"
  by (simp add: Replica_acknowledge_def Let_def)

lemma openingWriteRpc_certificate:
  "(rpcCertificate (openingWriteRpc env i s r) = None) = replicateAtomically r
   \<and> bytes (sent (Replica_sentOpen s rpc r)) = openLen s"
  by (simp add: openingWriteRpc_def Replica_sentOpen_def)

text \<open>
  Claim C1, evaluated on a run.  A segment with one replica is opened on backup1, and 20
  bytes are synced to it; then backup1 fails, so the replica is lost while open and its
  slot is re-replicated atomically.  The task chooses backup3 and sends the opening
  write, which carries no certificate.  When that write is acknowledged, \<open>acked\<close>
  advances to \<open>sent\<close> and, because \<open>acked.bytes == openLen\<close>, \<open>committed\<close> advances to
  \<open>acked\<close>: the replica counts as durably open with 10 bytes, although the write that
  was acknowledged carried no certificate.
\<close>

theorem atomic_open_commits_without_certificate:
  "\<exists>m1 m2 m3 m4 w s3 s4.
     performTasks 0 [exampleEnv, exampleEnv] freshManager = Inr m1
     \<and> sync 0 20 (20, 9) [(0, exampleEnv), (0, exampleEnv)] m1 = Some (Inr m2)
     \<and> performTasks 0 [replacementEnv] (handleBackupFailure_at backup1 0 m2) = Inr m3
     \<and> issuedBy m2 m3 = [WriteRequest w] \<and> rpcOpen w \<and> rpcCertificate w = None
     \<and> segments m3 0 = Some s3 \<and> writeRpc (replicas s3 ! 0) = Some w
     \<and> replicateAtomically (replicas s3 ! 0) \<and> committed (replicas s3 ! 0) = Progress_new
     \<and> performTasks 0 [replacementEnv] m3 = Inr m4
     \<and> segments m4 0 = Some s4
     \<and> acked (replicas s4 ! 0) = sent (replicas s3 ! 0)
     \<and> committed (replicas s4 ! 0) = acked (replicas s4 ! 0)
     \<and> committed (replicas s4 ! 0) = \<lparr>open = True, bytes = 10, epoch = 1, close = False\<rparr>
     \<and> bytes (acked (replicas s4 ! 0)) = openLen s4 \<and> acked (replicas s4 ! 0) \<noteq> queued s4"
  by (simp add: evalDefs)

section \<open>When sync returns\<close>

lemma sync_loop_returns_done:
  "sync_loop k offset steps m = Some (Inr m')
     \<Longrightarrow> \<exists>s'. segments m' k = Some s' \<and> syncDone offset s'"
  by (induction steps arbitrary: m) (auto split: sum.splits option.splits if_splits)

lemma sync_loop_blocked_aux:
  "sync_loop k offset steps m = None \<Longrightarrow> taskQueue_run steps m = Inr m''
     \<Longrightarrow> steps = [] \<or> (\<exists>s''. segments m'' k = Some s'' \<and> \<not> syncDone offset s'')"
proof (induction steps arbitrary: m)
  case Nil
  then show ?case by simp
next
  case (Cons step steps)
  from Cons.prems obtain m1 s1 where 1: "taskQueue_performTask (snd step) (fst step) m = Inr m1"
    and 2: "segments m1 k = Some s1" "\<not> syncDone offset s1"
    and 3: "sync_loop k offset steps m1 = None" and 4: "taskQueue_run steps m1 = Inr m''"
    by (auto split: sum.splits option.splits if_splits)
  from Cons.IH [OF 3 4] 2 4 show ?case by auto
qed

lemma sync_loop_blocked:
  "sync_loop k offset steps m = None \<Longrightarrow> steps \<noteq> [] \<Longrightarrow> taskQueue_run steps m = Inr m''
     \<Longrightarrow> \<exists>s''. segments m'' k = Some s'' \<and> \<not> syncDone offset s''"
  using sync_loop_blocked_aux by blast

text \<open>
  Claim C3, as the code has it.  \<open>sync(offset)\<close> returns exactly when its test holds:
  \<open>recoveringFromLostOpenReplicas\<close> is false and, for the default offset \<open>~0u\<close>,
  \<open>getCommitted().close\<close> is true, or, for any other offset, \<open>getCommitted().bytes >= offset\<close>.
  If the test holds on entry, \<open>sync\<close> returns at once and changes nothing; a state it
  returns satisfies the test; and as long as it has not returned, the test fails on
  entry and after every call of \<open>taskQueue.performTask()\<close> it has made.  The flag is
  waited for with every offset, and the offset is compared as given, not cut down to
  \<open>queued.bytes\<close>.
\<close>

theorem sync_returns_exactly_when_done:
  assumes "segments m k = Some s"
  shows "(syncDone offset s \<longrightarrow> sync k offset appended steps m = Some (Inr m))
     \<and> (sync k offset appended steps m = Some (Inr m')
          \<longrightarrow> (\<exists>s'. segments m' k = Some s' \<and> \<not> recoveringFromLostOpenReplicas s'
                 \<and> (if offset = - 1 then close (getCommitted s')
                    else offset \<le> bytes (getCommitted s'))))
     \<and> (sync k offset appended steps m = None
          \<longrightarrow> \<not> syncDone offset s
              \<and> (\<forall>m''. steps \<noteq> []
                     \<and> taskQueue_run steps (putSegment k (sync_enqueue appended s) m) = Inr m''
                   \<longrightarrow> (\<exists>s''. segments m'' k = Some s'' \<and> \<not> syncDone offset s'')))"
proof (intro conjI impI allI)
  assume "syncDone offset s"
  with assms show "sync k offset appended steps m = Some (Inr m)"
    by (simp add: sync_def)
next
  assume r: "sync k offset appended steps m = Some (Inr m')"
  show "\<exists>s'. segments m' k = Some s' \<and> \<not> recoveringFromLostOpenReplicas s'
          \<and> (if offset = - 1 then close (getCommitted s') else offset \<le> bytes (getCommitted s'))"
  proof (cases "syncDone offset s")
    case True
    with r assms show ?thesis by (auto simp: sync_def syncDone_def)
  next
    case False
    with r assms have "sync_loop k offset steps (putSegment k (sync_enqueue appended s) m)
        = Some (Inr m')"
      by (simp add: sync_def)
    from sync_loop_returns_done [OF this] show ?thesis by (auto simp: syncDone_def)
  qed
next
  assume "sync k offset appended steps m = None"
  with assms show "\<not> syncDone offset s"
    by (auto simp: sync_def split: if_splits)
next
  fix m''
  assume n: "sync k offset appended steps m = None"
    and "steps \<noteq> [] \<and> taskQueue_run steps (putSegment k (sync_enqueue appended s) m) = Inr m''"
  moreover from n assms
  have "sync_loop k offset steps (putSegment k (sync_enqueue appended s) m) = None"
    by (auto simp: sync_def split: if_splits)
  ultimately show "\<exists>s''. segments m'' k = Some s'' \<and> \<not> syncDone offset s''"
    by (blast dest: sync_loop_blocked)
qed

theorem sync_returns_exactly_when_done_witness:
  "sync 0 20 (20, 9) [(0, exampleEnv), (0, exampleEnv)] openedManager \<noteq> None
   \<and> sync 0 20 (20, 9) [(0, exampleEnv)] openedManager = None
   \<and> sync 0 10 (20, 9) [] openedManager = Some (Inr openedManager)
   \<and> syncDone 10 openedSegment \<and> \<not> syncDone 20 openedSegment"
  using sync_returns_exactly_when_done [of openedManager 0 openedSegment 10 "(20, 9)" "[]"]
    sync_returns_exactly_when_done [of openedManager 0 openedSegment 20 "(20, 9)" "[(0, exampleEnv)]"]
  by (simp add: evalDefs)

text \<open>
  The claim as stated fails twice.  With 20 bytes certified on every replica, \<open>sync(5)\<close>
  still does not return while \<open>recoveringFromLostOpenReplicas\<close> is set, whatever number of
  tasks it runs before the coordinator confirms the epoch.  And with all 10 queued
  bytes certified, \<open>sync(50)\<close> does not return although \<open>min(50, queued.bytes)\<close> bytes are
  durable.
\<close>

theorem sync_finite_offset_waits_counterexample:
  "bytes (getCommitted caughtUpSegment) = 20
   \<and> segments caughtUpManager 0 = Some caughtUpSegment
   \<and> sync 0 5 (20, 9) [] caughtUpManager = None
   \<and> sync 0 5 (20, 9) [(0, exampleEnv), (0, exampleEnv), (0, exampleEnv)] caughtUpManager = None
   \<and> bytes (getCommitted openedSegment) = 10 \<and> bytes (queued openedSegment) = 10
   \<and> \<not> recoveringFromLostOpenReplicas openedSegment
   \<and> segments openedManager 0 = Some openedSegment
   \<and> sync 0 50 (10, 7) [(0, exampleEnv), (0, exampleEnv), (0, exampleEnv)] openedManager = None"
  by (simp add: evalDefs)

section \<open>Writes to the backup\<close>

lemma copyIn_length:
  "offset + len \<le> length d \<Longrightarrow> length (copyIn offset len p d) = length d"
  by (simp add: copyIn_def)

lemma copyIn_idem:
  "offset + len \<le> length d \<Longrightarrow> copyIn offset len p (copyIn offset len p d) = copyIn offset len p d"
  by (simp add: copyIn_def)

lemma writeFrame_idem:
  "writeFrame req f = Inr f1 \<Longrightarrow> \<not> closed f1 \<Longrightarrow> writeFrame req f1 = Inr f1"
  by (auto simp: writeFrame_def Let_def copyIn_idem copyIn_length split: if_splits option.splits)

lemma writeFrame_closed: "closed f \<Longrightarrow> writeFrame req f = Inl BackupBadSegmentId"
  by (simp add: writeFrame_def)

lemma writeFrame_close: "writeFrame req f = Inr f1 \<Longrightarrow> reqClose req \<Longrightarrow> closed f1"
  by (auto simp: writeFrame_def Let_def split: if_splits option.splits)

lemma writeFrame_recovered:
  "writeFrame req f = Inr f1 \<Longrightarrow> recoveredFromStorage f1 = recoveredFromStorage f"
  by (auto simp: writeFrame_def Let_def split: if_splits option.splits)

lemma writeSegment_frame:
  assumes "writeSegment req b = Inr (b1, g)"
  shows "\<exists>f f1. writeFrame req f = Inr f1 \<and> \<not> recoveredFromStorage f
      \<and> frames b1 (reqMasterId req, reqSegmentId req) = Some f1
      \<and> replicationGroup b1 = replicationGroup b
      \<and> g = (if reqOpen req then replicationGroup b else [])
      \<and> b1\<lparr>frames := (frames b1)((reqMasterId req, reqSegmentId req) \<mapsto> f1)\<rparr> = b1"
proof (cases "frames b (reqMasterId req, reqSegmentId req)")
  case None
  let ?f = "\<lparr>frameData = replicate (segmentSize b) 0, frameCertificate = None,
             closed = False, primary = reqPrimary req,
             frameEpoch = reqEpoch req, recoveredFromStorage = False\<rparr>"
  from None assms obtain f1 where "writeFrame req ?f = Inr f1"
    and "b1 = b\<lparr>freeFrames := freeFrames b - 1,
                 frames := (frames b)((reqMasterId req, reqSegmentId req) \<mapsto> f1)\<rparr>"
    and "g = (if reqOpen req then replicationGroup b else [])"
    by (auto simp: writeSegment_def Let_def split: if_splits sum.splits)
  then show ?thesis
    by (intro exI [of _ ?f] exI [of _ f1]) simp
next
  case (Some f)
  with assms obtain f1 where "writeFrame req f = Inr f1" and "\<not> recoveredFromStorage f"
    and "b1 = b\<lparr>frames := (frames b)((reqMasterId req, reqSegmentId req) \<mapsto> f1)\<rparr>"
    and "g = (if reqOpen req then replicationGroup b else [])"
    by (auto simp: writeSegment_def Let_def split: if_splits sum.splits)
  then show ?thesis
    by (intro exI [of _ f] exI [of _ f1]) simp
qed

text \<open>
  Claim C8.  Once a closing write has sealed a frame, every later write to the same
  (masterId, segmentId) fails with \<open>BadSegmentId\<close>, whatever its flags; the closing write
  itself, sent again, fails in the same way.  And a write without the open flag to a
  (masterId, segmentId) that has no frame fails with \<open>BadSegmentId\<close>.
\<close>

theorem writeSegment_after_close_is_rejected:
  "(writeSegment closing b = Inr (b1, g) \<and> reqClose closing
      \<and> reqMasterId later = reqMasterId closing \<and> reqSegmentId later = reqSegmentId closing
    \<longrightarrow> writeSegment later b1 = Inl BackupBadSegmentId
        \<and> writeSegment closing b1 = Inl BackupBadSegmentId)
   \<and> (frames b (reqMasterId req, reqSegmentId req) = None \<and> \<not> reqOpen req
    \<longrightarrow> writeSegment req b = Inl BackupBadSegmentId)"
proof (intro conjI impI)
  assume a: "writeSegment closing b = Inr (b1, g) \<and> reqClose closing
      \<and> reqMasterId later = reqMasterId closing \<and> reqSegmentId later = reqSegmentId closing"
  from writeSegment_frame[of closing b b1 g] a obtain f f1 where
    f: "writeFrame closing f = Inr f1" "\<not> recoveredFromStorage f"
      "frames b1 (reqMasterId closing, reqSegmentId closing) = Some f1"
    by blast
  from writeFrame_close[OF f(1)] a have c: "closed f1" by simp
  from writeFrame_recovered[OF f(1)] f(2) have r: "\<not> recoveredFromStorage f1" by simp
  from f(3) c r a show "writeSegment later b1 = Inl BackupBadSegmentId"
    by (simp add: writeSegment_def writeFrame_closed)
  from f(3) c r show "writeSegment closing b1 = Inl BackupBadSegmentId"
    by (simp add: writeSegment_def writeFrame_closed)
next
  assume "frames b (reqMasterId req, reqSegmentId req) = None \<and> \<not> reqOpen req"
  then show "writeSegment req b = Inl BackupBadSegmentId"
    by (simp add: writeSegment_def)
qed

theorem writeSegment_after_close_is_rejected_witness:
  "\<exists>b1 b2 g. writeSegment openRequest emptyBackup = Inr (b1, g)
     \<and> writeSegment closeRequest b1 = Inr (b2, [])
     \<and> writeSegment rawStringRequest b2 = Inl BackupBadSegmentId
     \<and> writeSegment (rawStringRequest\<lparr>reqClose := True\<rparr>) b2 = Inl BackupBadSegmentId
     \<and> writeSegment closeRequest b2 = Inl BackupBadSegmentId
     \<and> writeSegment rawStringRequest emptyBackup = Inl BackupBadSegmentId"
proof -
  have "\<exists>b1 b2 g. writeSegment openRequest emptyBackup = Inr (b1, g)
     \<and> writeSegment closeRequest b1 = Inr (b2, [])"
    by (simp add: backupDefs)
  then obtain b1 b2 g where 1: "writeSegment openRequest emptyBackup = Inr (b1, g)"
    and 2: "writeSegment closeRequest b1 = Inr (b2, [])"
    by blast
  have 3: "reqClose closeRequest"
    "reqMasterId rawStringRequest = reqMasterId closeRequest"
    "reqSegmentId rawStringRequest = reqSegmentId closeRequest"
    "frames emptyBackup (reqMasterId rawStringRequest, reqSegmentId rawStringRequest) = None"
    "\<not> reqOpen rawStringRequest"
    by (simp_all add: backupDefs)
  from writeSegment_after_close_is_rejected
         [of closeRequest b1 b2 "[]" rawStringRequest rawStringRequest]
       writeSegment_after_close_is_rejected
         [of closeRequest b1 b2 "[]" "rawStringRequest\<lparr>reqClose := True\<rparr>" rawStringRequest]
       writeSegment_after_close_is_rejected
         [of closeRequest emptyBackup b2 "[]" rawStringRequest rawStringRequest]
       1 2 3
  show ?thesis by auto
qed

lemma writeSegment_idem:
  assumes "writeSegment req b = Inr (b1, g)"
    and "frames b1 (reqMasterId req, reqSegmentId req) = Some f1" and "\<not> closed f1"
  shows "writeSegment req b1 = Inr (b1, g)"
proof -
  from writeSegment_frame[OF assms(1)] assms(2) obtain f where
    f: "writeFrame req f = Inr f1" "\<not> recoveredFromStorage f"
       "replicationGroup b1 = replicationGroup b" "g = (if reqOpen req then replicationGroup b else [])"
       "b1\<lparr>frames := (frames b1)((reqMasterId req, reqSegmentId req) \<mapsto> f1)\<rparr> = b1"
    by auto
  from writeFrame_recovered[OF f(1)] f(2) have r: "\<not> recoveredFromStorage f1" by simp
  from writeFrame_idem[OF f(1) assms(3)] assms(2) r f(3,4,5) show ?thesis
    by (simp add: writeSegment_def)
qed

text \<open>
  Claim C9.  If a write succeeds and leaves its frame open, then the same write sent
  again succeeds too and leaves the backup, the bytes of the frame included, exactly as
  the first call left it, however often it is repeated.
\<close>

theorem writeSegment_retry_idempotent:
  assumes "writeSegment req b = Inr (b1, g)"
    and "frames b1 (reqMasterId req, reqSegmentId req) = Some f1" and "\<not> closed f1"
  shows "retryWrite n req b1 = Inr (b1, g)"
  using writeSegment_idem[OF assms] by (induction n) simp_all

theorem writeSegment_retry_idempotent_witness:
  "\<exists>b1 b2 g f. writeSegment openRequest emptyBackup = Inr (b1, g)
     \<and> writeSegment rawStringRequest b1 = Inr (b2, [])
     \<and> frames b2 (ServerId 99 0, 88) = Some f \<and> \<not> closed f
     \<and> take 5 (drop 10 (frameData f)) = [116, 101, 115, 116, 0]
     \<and> retryWrite 3 rawStringRequest b2 = Inr (b2, [])"
proof -
  have "\<exists>b1 b2 g f. writeSegment openRequest emptyBackup = Inr (b1, g)
     \<and> writeSegment rawStringRequest b1 = Inr (b2, [])
     \<and> frames b2 (reqMasterId rawStringRequest, reqSegmentId rawStringRequest) = Some f
     \<and> frames b2 (ServerId 99 0, 88) = Some f \<and> \<not> closed f
     \<and> take 5 (drop 10 (frameData f)) = [116, 101, 115, 116, 0]"
    by (simp add: backupDefs)
  then obtain b1 b2 g f where 1: "writeSegment openRequest emptyBackup = Inr (b1, g)"
    and 2: "writeSegment rawStringRequest b1 = Inr (b2, [])"
    and 3: "frames b2 (reqMasterId rawStringRequest, reqSegmentId rawStringRequest) = Some f"
      "\<not> closed f"
    and 4: "frames b2 (ServerId 99 0, 88) = Some f"
      "take 5 (drop 10 (frameData f)) = [116, 101, 115, 116, 0]"
    by blast
  from writeSegment_retry_idempotent [OF 2 3, of 3] 1 2 3 4 show ?thesis by blast
qed

section \<open>The order of the recovery plan\<close>





section \<open>The order of committed, acked, sent and queued\<close>

lemma Progress_le_refl [simp]: "Progress_le p p"
  by (simp add: Progress_le_def)

lemma Progress_le_trans: "Progress_le a b \<Longrightarrow> Progress_le b c \<Longrightarrow> Progress_le a c"
  by (auto simp: Progress_le_def)

lemma repInv_new: "repInv q ol Replica_new"
  by (simp add: repInv_def Replica_new_def Progress_new_def Progress_le_def)

lemma repInv_failed: "repInv q ol (Replica_failed r)"
  by (simp add: repInv_def Replica_failed_def Replica_new_def Progress_new_def Progress_le_def)

lemma repInv_start: "repInv q ol r \<Longrightarrow> repInv q ol (Replica_start b r)"
  by (simp add: repInv_def Replica_start_def)

lemma repInv_freeRpc: "repInv q ol r \<Longrightarrow> repInv q ol (r\<lparr>freeRpc := f\<rparr>)"
  by (simp add: repInv_def)

lemma repInv_rpcNone: "repInv q ol r \<Longrightarrow> repInv q ol (r\<lparr>writeRpc := None\<rparr>)"
  by (simp add: repInv_def)

lemma repInv_cancel: "repInv q ol r \<Longrightarrow> repInv q ol (cancelWrite r)"
  by (auto simp: repInv_def cancelWrite_def split: option.splits)

lemma repInv_acknowledge:
  "repInv q ol r \<Longrightarrow> writeRpc r \<noteq> None \<Longrightarrow> repInv q ol (Replica_acknowledge q ol r)"
  by (auto simp: repInv_def Replica_acknowledge_def Let_def Progress_le_def)

lemma repInv_notUp:
  "repInv q ol r \<Longrightarrow> repInv q ol (r\<lparr>sent := acked r, writeRpc := None\<rparr>)"
  by (auto simp: repInv_def Progress_le_def)

lemma repInv_sendOpen:
  "repInv q ol r \<Longrightarrow> \<not> open (committed r) \<Longrightarrow> open q \<Longrightarrow> ol \<le> bytes q \<Longrightarrow>
   repInv q ol (r\<lparr>writeRpc := Some rpc,
                   sent := (sent r)\<lparr>open := True, bytes := ol, epoch := epoch q\<rparr>\<rparr>)"
  by (auto simp: repInv_def Progress_le_def)

lemma word_add_within2:
  fixes a b mx :: "'a::len word"
  assumes "a \<le> b" "mx < b - a"
  shows "a + mx < b"
  using word_less_add_right [OF assms(2,1)] by (simp add: add.commute)

lemma word_add_within1:
  fixes a b mx :: "'a::len word"
  assumes "a \<le> b" "mx < b - a"
  shows "a \<le> a + mx"
  using assms by uint_arith

lemma repInv_sendWrite:
  assumes "repInv q ol r" "open (committed r)"
  shows "repInv q ol
     (r\<lparr>writeRpc := Some rpc,
        sent := (sent r)\<lparr>bytes := bytes (sent r) +
                           (if mx < bytes q - bytes (sent r) then mx else bytes q - bytes (sent r)),
                         epoch := epoch q,
                         close := (close q \<and> bytes (sent r) +
                           (if mx < bytes q - bytes (sent r) then mx else bytes q - bytes (sent r))
                             = bytes q)\<rparr>\<rparr>)"
proof (cases "mx < bytes q - bytes (sent r)")
  case True
  from assms have le: "bytes (sent r) \<le> bytes q" by (simp add: repInv_def Progress_le_def)
  from word_add_within1 [OF le True] word_add_within2 [OF le True]
  have w: "bytes (sent r) \<le> bytes (sent r) + mx" "bytes (sent r) + mx \<le> bytes q"
    "bytes (sent r) + mx \<noteq> bytes q" by simp_all
  from assms True have nc: "\<not> close (acked r)"
    by (auto simp: repInv_def Progress_le_def)
  from assms(1) have "bytes (acked r) \<le> bytes (sent r)" by (simp add: repInv_def Progress_le_def)
  from this w(1) have "bytes (acked r) \<le> bytes (sent r) + mx" by (rule order_trans)
  moreover from assms(1) have "epoch (acked r) \<le> epoch q"
    by (auto simp: repInv_def Progress_le_def)
  ultimately show ?thesis using assms w nc True
    by (simp add: repInv_def Progress_le_def)
next
  case False
  from assms have le: "bytes (sent r) \<le> bytes q" "bytes (acked r) \<le> bytes (sent r)"
    by (simp_all add: repInv_def Progress_le_def)
  then have "bytes (acked r) \<le> bytes q" by simp
  with assms False le show ?thesis
    by (auto simp: repInv_def Progress_le_def)
qed

lemma word_le_succ:
  fixes x y :: "'a::len word"
  assumes "x \<noteq> - 1" "y \<le> x"
  shows "y \<le> x + 1"
proof -
  from assms(1) have "\<not> x + 1 \<le> x" by (simp add: inc_less_eq_self_iff_eq)
  with assms(2) show ?thesis by simp
qed

lemma repInv_epoch:
  "repInv q ol r \<Longrightarrow> epoch q \<noteq> - 1 \<Longrightarrow> repInv (q\<lparr>epoch := epoch q + 1\<rparr>) ol r"
  by (auto simp: repInv_def Progress_le_def word_le_succ)

lemma repInv_close:
  "repInv q ol r \<Longrightarrow> \<not> close q \<Longrightarrow> bytes q \<le> a \<Longrightarrow> repInv (q\<lparr>close := True, bytes := a\<rparr>) ol r"
  by (auto simp: repInv_def Progress_le_def)

lemma repInv_stretch:
  "repInv q ol r \<Longrightarrow> \<not> close q \<Longrightarrow> bytes q \<le> a \<Longrightarrow> repInv (q\<lparr>bytes := a\<rparr>) ol r"
  by (auto simp: repInv_def Progress_le_def)

lemma repInv_sentOpen:
  "repInv (queued s) (openLen s) r \<Longrightarrow> \<not> open (committed r) \<Longrightarrow> open (queued s)
     \<Longrightarrow> openLen s \<le> bytes (queued s)
     \<Longrightarrow> repInv (queued s) (openLen s) (Replica_sentOpen s rpc r)"
  unfolding Replica_sentOpen_def by (rule repInv_sendOpen)

lemma repInv_sentData:
  "repInv (queued s) (openLen s) r \<Longrightarrow> open (committed r)
     \<Longrightarrow> repInv (queued s) (openLen s)
           (Replica_sentData s rpc (writeLength s r) (writeSendClose s r) r)"
  unfolding Replica_sentData_def writeLength_def writeSendClose_def by (rule repInv_sendWrite)

lemma segInv_schedule [simp]: "segInv (schedule s) = segInv s"
  by (simp add: segInv_def schedule_def)

lemma segInv_nth:
  "segInv s \<Longrightarrow> i < length (replicas s) \<Longrightarrow> repInv (queued s) (openLen s) (replicas s ! i)"
  by (simp add: segInv_def list_all_length)

lemma segInv_setReplica:
  assumes "segInv s" and "i < length (replicas s) \<Longrightarrow> repInv (queued s) (openLen s) r"
  shows "segInv (setReplica i r s)"
proof (cases "i < length (replicas s)")
  case True
  with assms have "list_all (repInv (queued s) (openLen s)) ((replicas s)[i := r])"
    by (auto simp: segInv_def list_all_iff dest!: subsetD [OF set_update_subset_insert])
  with assms(1) show ?thesis by (simp add: segInv_def setReplica_def)
next
  case False
  with assms(1) show ?thesis by (simp add: segInv_def setReplica_def list_update_beyond)
qed

lemma segInv_new: "segInv (ReplicatedSegment_new master segId normal n mx appended)"
  by (simp add: ReplicatedSegment_new_def segInv_def list_all_iff repInv_new)

lemma managerInv_put: "managerInv m \<Longrightarrow> segInv s \<Longrightarrow> managerInv (putSegment k s m)"
  by (simp add: managerInv_def)

lemma managerInv_seg: "managerInv m \<Longrightarrow> segments m k = Some s \<Longrightarrow> segInv s"
  by (simp add: managerInv_def)

lemma managerInv_issue [simp]: "managerInv (issue rq m) = managerInv m"
  by (simp add: managerInv_def)

lemma managerInv_inflight [simp]: "managerInv (m\<lparr>writeRpcsInFlight := x\<rparr>) = managerInv m"
  by (simp add: managerInv_def)

lemma managerInv_replicationEpoch [simp]: "managerInv (m\<lparr>replicationEpoch := x\<rparr>) = managerInv m"
  by (simp add: managerInv_def)

lemma managerInv_destroy:
  "managerInv m \<Longrightarrow> managerInv (destroyAndFreeReplicatedSegment k m)"
  by (simp add: managerInv_def destroyAndFreeReplicatedSegment_def)

lemma inv_nth:
  "managerInv m \<Longrightarrow> segments m k = Some s \<Longrightarrow> i < length (replicas s)
     \<Longrightarrow> repInv (queued s) (openLen s) (replicas s ! i)"
  by (blast intro: segInv_nth managerInv_seg)

lemma inv_put_replica:
  assumes "managerInv m" and "segments m k = Some s"
    and "i < length (replicas s) \<Longrightarrow> repInv (queued s) (openLen s) r"
  shows "managerInv (putSegment k (setReplica i r s) m)"
    and "managerInv (putSegment k (schedule (setReplica i r s)) m)"
proof -
  from assms(1,2) have "segInv s" by (rule managerInv_seg)
  then have "segInv (setReplica i r s)" using assms(3) by (rule segInv_setReplica)
  with assms(1) show "managerInv (putSegment k (setReplica i r s) m)"
    and "managerInv (putSegment k (schedule (setReplica i r s)) m)"
    by (simp_all add: managerInv_put)
qed

lemma inv_put_schedule:
  "managerInv m \<Longrightarrow> segments m k = Some s \<Longrightarrow> managerInv (putSegment k (schedule s) m)"
  by (simp add: managerInv_put managerInv_seg)

lemma startWrite_inv:
  assumes "managerInv m" and "segments m k = Some s"
    and "i < length (replicas s) \<Longrightarrow> repInv (queued s) (openLen s) r1"
  shows "managerInv (startWrite k i rpc r1 s m)"
  using inv_put_replica(2) [OF assms] by (simp add: startWrite_def)

lemma performFree_inv:
  assumes inv: "managerInv m" and c: "performFree env k i m = Inr m'"
  shows "managerInv m'"
proof -
  from c obtain s where s: "segments m k = Some s"
    by (cases "segments m k") (simp_all add: performFree_def)
  let ?r = "replicas s ! i"
  show ?thesis
  proof (cases "isActive ?r")
    case False
    with c s inv show ?thesis by (simp add: performFree_def)
  next
    case True
    note act = this
    show ?thesis
    proof (cases "freeRpc ?r")
      case (Some f)
      show ?thesis
      proof (cases "freeRpcResult env i = NotReady")
        case True
        with c s act Some have "m' = putSegment k (schedule s) m"
          by (simp add: performFree_def)
        with inv s show ?thesis by (simp add: inv_put_schedule)
      next
        case False
        with c s act Some have "m' = putSegment k (setReplica i (Replica_reset ?r) s) m"
          by (cases "freeRpcResult env i") (simp_all add: performFree_def)
        moreover have "managerInv (putSegment k (setReplica i (Replica_reset ?r) s) m)"
          using inv s by (rule inv_put_replica) (simp add: Replica_reset_def repInv_new)
        ultimately show ?thesis by simp
      qed
    next
      case None
      let ?rpc = "\<lparr>freeBackupId = backupId ?r, freeMasterId = masterId s,
                    freeSegmentId = segmentId s\<rparr>"
      from c s act None have w: "writeRpc ?r = None"
        by (cases "writeRpc ?r") (simp_all add: performFree_def)
      with c s act None have "m' = issue (FreeRequest ?rpc)
           (putSegment k (schedule (setReplica i (?r\<lparr>freeRpc := Some ?rpc\<rparr>) s)) m)"
        by (simp add: performFree_def Let_def)
      moreover
      have "managerInv (putSegment k (schedule (setReplica i (?r\<lparr>freeRpc := Some ?rpc\<rparr>) s)) m)"
        using inv s by (rule inv_put_replica) (rule repInv_freeRpc, rule inv_nth [OF inv s])
      ultimately show ?thesis by simp
    qed
  qed
qed


lemma segInv_same:
  "segInv s \<Longrightarrow> replicas s' = replicas s \<Longrightarrow> queued s' = queued s \<Longrightarrow> openLen s' = openLen s
     \<Longrightarrow> segInv s'"
  by (simp add: segInv_def)

lemma notifyFollowing_progress:
  "notifyFollowing k m = Inr m' \<Longrightarrow> segments m' k' = Some s'
     \<Longrightarrow> \<exists>s. segments m k' = Some s \<and> replicas s' = replicas s \<and> queued s' = queued s
            \<and> openLen s' = openLen s"
  by (auto simp: notifyFollowing_def Let_def split: option.splits if_splits)

lemma notifyFollowing_inv:
  assumes inv: "managerInv m" and c: "notifyFollowing k m = Inr m'"
  shows "managerInv m'"
  unfolding managerInv_def
proof (intro allI impI)
  fix k' s'
  assume "segments m' k' = Some s'"
  from notifyFollowing_progress [OF c this] obtain s where "segments m k' = Some s"
    and "replicas s' = replicas s" "queued s' = queued s" "openLen s' = openLen s"
    by blast
  with inv show "segInv s'" by (blast intro: segInv_same managerInv_seg)
qed

lemma finishWrite_result:
  assumes "finishWrite k i m = Inr m'" and "segments m k = Some s"
  shows "\<exists>s1. m' = (putSegment k s1 m)\<lparr>writeRpcsInFlight := writeRpcsInFlight m - 1\<rparr>
     \<and> replicas s1 = (replicas s)[i := (replicas s ! i)\<lparr>writeRpc := None\<rparr>]
     \<and> queued s1 = queued s \<and> openLen s1 = openLen s"
  using assms by (simp add: finishWrite_def Let_def split: if_splits) auto

lemma finishWrite_inv:
  assumes c: "finishWrite k i m = Inr m'" and s: "segments m k = Some s"
    and inv: "managerInv (putSegment k (setReplica i ((replicas s ! i)\<lparr>writeRpc := None\<rparr>) s) m)"
  shows "managerInv m'"
proof -
  let ?s0 = "setReplica i ((replicas s ! i)\<lparr>writeRpc := None\<rparr>) s"
  from inv have si: "segInv ?s0" by (rule managerInv_seg [where k = k]) simp
  from finishWrite_result [OF c s] obtain s1 where
    m': "m' = (putSegment k s1 m)\<lparr>writeRpcsInFlight := writeRpcsInFlight m - 1\<rparr>"
    and e: "replicas s1 = replicas ?s0" "queued s1 = queued ?s0" "openLen s1 = openLen ?s0"
    by (auto simp: setReplica_def)
  from si e have "segInv s1" by (rule segInv_same)
  with inv have "managerInv (putSegment k s1 (putSegment k ?s0 m))" by (rule managerInv_put)
  then show ?thesis unfolding m' by (simp add: putSegment_def)
qed

lemma finishWrite_inv_valid:
  assumes "managerInv m" and "finishWrite k i m = Inr m'"
  shows "managerInv m'"
proof -
  from assms(2) obtain s where s: "segments m k = Some s"
    by (cases "segments m k") (simp_all add: finishWrite_def)
  have "managerInv (putSegment k (setReplica i ((replicas s ! i)\<lparr>writeRpc := None\<rparr>) s) m)"
    using assms(1) s by (rule inv_put_replica) (rule repInv_rpcNone [OF inv_nth [OF assms(1) s]])
  from finishWrite_inv [OF assms(2) s this] show ?thesis .
qed

lemma completeWrite_inv:
  assumes inv: "managerInv m" and c: "completeWrite env k i m = Inr m'"
    and s: "segments m k = Some s" and rpc: "writeRpc (replicas s ! i) \<noteq> None"
  shows "managerInv m'"
proof -
  let ?r = "replicas s ! i"
  show ?thesis
  proof (cases "writeRpcResult env i")
    case NotReady
    with c s have "m' = putSegment k (schedule s) m" by (simp add: completeWrite_def)
    with inv s show ?thesis by (simp add: inv_put_schedule)
  next
    case Completed
    let ?m1 = "putSegment k (setReplica i (Replica_acknowledge (queued s) (openLen s) ?r) s) m"
    from Completed c s obtain m2 where 2: "notifyFollowing k ?m1 = Inr m2"
      and 3: "finishWrite k i m2 = Inr m'"
      by (cases "notifyFollowing k ?m1") (simp_all add: completeWrite_def Let_def)
    have "managerInv ?m1"
      using inv s by (rule inv_put_replica) (rule repInv_acknowledge [OF inv_nth [OF inv s] rpc])
    from notifyFollowing_inv [OF this 2] have "managerInv m2" .
    from finishWrite_inv_valid [OF this 3] show ?thesis .
  next
    case ServerNotUpException
    let ?s1 = "setReplica i (?r\<lparr>sent := acked ?r\<rparr>) s"
    let ?m1 = "putSegment k ?s1 m"
    from ServerNotUpException c s have 3: "finishWrite k i ?m1 = Inr m'"
      by (simp add: completeWrite_def Let_def)
    have s1: "segments ?m1 k = Some ?s1" by simp
    have "managerInv (putSegment k (setReplica i ((replicas ?s1 ! i)\<lparr>writeRpc := None\<rparr>) ?s1) ?m1)"
    proof (cases "i < length (replicas s)")
      case True
      have "managerInv (putSegment k (setReplica i (?r\<lparr>sent := acked ?r, writeRpc := None\<rparr>) s) m)"
        using inv s by (rule inv_put_replica) (rule repInv_notUp [OF inv_nth [OF inv s]])
      with True show ?thesis by (simp add: setReplica_def putSegment_def)
    next
      case False
      with inv s show ?thesis
        by (simp add: setReplica_def putSegment_def list_update_beyond managerInv_def)
    qed
    from finishWrite_inv [OF 3 s1 this] show ?thesis .
  next
    case BackupOpenRejectedException
    let ?m1 = "putSegment k (setReplica i (Replica_reset ?r) s) m"
    from BackupOpenRejectedException c s have 3: "finishWrite k i ?m1 = Inr m'"
      by (simp add: completeWrite_def Let_def)
    have "managerInv ?m1"
      using inv s by (rule inv_put_replica) (simp add: Replica_reset_def repInv_new)
    from finishWrite_inv_valid [OF this 3] show ?thesis .
  qed
qed

lemma sendOpen_inv:
  assumes inv: "managerInv m" and c: "sendOpen env k i m = Inr m'"
    and s: "segments m k = Some s" and o: "\<not> open (committed (replicas s ! i))"
  shows "managerInv m'"
proof (cases "precedingSegmentOpenCommitted s
              \<and> writeRpcsInFlight m \<noteq> MAX_WRITE_RPCS_IN_FLIGHT env")
  case False
  with c s have "m' = putSegment k (schedule s) m"
    by (auto simp: sendOpen_def Let_def split: if_splits)
  with inv s show ?thesis by (simp add: inv_put_schedule)
next
  case True
  from inv s have "segInv s" by (rule managerInv_seg)
  then have q: "open (queued s)" "openLen s \<le> bytes (queued s)" by (simp_all add: segInv_def)
  let ?rpc = "openingWriteRpc env i s (replicas s ! i)"
  from True c s have "m' = startWrite k i ?rpc (Replica_sentOpen s ?rpc (replicas s ! i)) s m"
    by (simp add: sendOpen_def Let_def)
  moreover have "managerInv (startWrite k i ?rpc (Replica_sentOpen s ?rpc (replicas s ! i)) s m)"
    using inv s by (rule startWrite_inv) (rule repInv_sentOpen [OF inv_nth [OF inv s] o q])
  ultimately show ?thesis by simp
qed

lemma issueWrite_inv:
  assumes inv: "managerInv m"
    and c: "issueWrite env k i offset (writeLength s (replicas s ! i)) cert
              (writeSendClose s (replicas s ! i)) m = Inr m'"
    and s: "segments m k = Some s" and o: "open (committed (replicas s ! i))"
  shows "managerInv m'"
proof (cases "writeRpcsInFlight m = MAX_WRITE_RPCS_IN_FLIGHT env")
  case True
  with c s have "m' = putSegment k (schedule s) m" by (simp add: issueWrite_def)
  with inv s show ?thesis by (simp add: inv_put_schedule)
next
  case False
  let ?r = "replicas s ! i"
  let ?rpc = "dataWriteRpc env i s ?r offset (writeLength s ?r) cert (writeSendClose s ?r)"
  from False c s have "m' = startWrite k i ?rpc
       (Replica_sentData s ?rpc (writeLength s ?r) (writeSendClose s ?r) ?r) s m"
    by (simp add: issueWrite_def Let_def)
  moreover have "managerInv (startWrite k i ?rpc
       (Replica_sentData s ?rpc (writeLength s ?r) (writeSendClose s ?r) ?r) s m)"
    using inv s by (rule startWrite_inv) (rule repInv_sentData [OF inv_nth [OF inv s] o])
  ultimately show ?thesis by simp
qed

lemma sendWrite_result:
  assumes "sendWrite env k i m = Inr m'" and "segments m k = Some s"
  shows "m' = putSegment k (schedule s) m
     \<or> issueWrite env k i (bytes (sent (replicas s ! i))) (writeLength s (replicas s ! i))
          (writeCertificate s (replicas s ! i)) (writeSendClose s (replicas s ! i)) m = Inr m'"
  using assms by (simp add: sendWrite_def Let_def split: if_splits option.splits)

lemma sendWrite_inv:
  assumes inv: "managerInv m" and c: "sendWrite env k i m = Inr m'"
    and s: "segments m k = Some s" and o: "open (committed (replicas s ! i))"
  shows "managerInv m'"
  using sendWrite_result [OF c s]
proof
  assume "m' = putSegment k (schedule s) m"
  with inv s show ?thesis by (simp add: inv_put_schedule)
next
  assume "issueWrite env k i (bytes (sent (replicas s ! i))) (writeLength s (replicas s ! i))
          (writeCertificate s (replicas s ! i)) (writeSendClose s (replicas s ! i)) m = Inr m'"
  from issueWrite_inv [OF inv this s o] show ?thesis .
qed

lemma performWrite_active_inv:
  assumes inv: "managerInv m" and c: "performWrite_active env k i m = Inr m'"
    and s: "segments m k = Some s"
  shows "managerInv m'"
proof (cases "writeRpc (replicas s ! i) = None")
  case False
  with c s have "completeWrite env k i m = Inr m'" by (simp add: performWrite_active_def)
  from completeWrite_inv [OF inv this s False] show ?thesis .
next
  case True
  show ?thesis
  proof (cases "open (committed (replicas s ! i))")
    case False
    with True c s have "sendOpen env k i m = Inr m'" by (simp add: performWrite_active_def)
    from sendOpen_inv [OF inv this s False] show ?thesis .
  next
    case o: True
    with True c s have "sendWrite env k i m = Inr m'"
      by (simp add: performWrite_active_def split: if_splits)
    from sendWrite_inv [OF inv this s o] show ?thesis .
  qed
qed


lemma performWrite_inv:
  assumes inv: "managerInv m" and c: "performWrite env k i m = Inr m'"
  shows "managerInv m'"
proof -
  from c obtain s where s: "segments m k = Some s"
    by (cases "segments m k") (simp_all add: performWrite_def)
  let ?b = "if replicaIsPrimary env i
      then selectPrimary env (map backupId (filter isActive (replicas s)))
      else selectSecondary env (map backupId (filter isActive (replicas s)))"
  let ?s0 = "setReplica i (Replica_start ?b (replicas s ! i)) s"
  let ?m0 = "putSegment k ?s0 m"
  from performWrite_unfold [OF c s]
  have "m' = m \<or> m' = putSegment k (schedule s) m
     \<or> performWrite_active env k i m = Inr m' \<or> performWrite_active env k i ?m0 = Inr m'"
    by blast
  then show ?thesis
  proof (elim disjE)
    assume "m' = m"
    with inv show ?thesis by simp
  next
    assume "m' = putSegment k (schedule s) m"
    with inv s show ?thesis by (simp add: inv_put_schedule)
  next
    assume "performWrite_active env k i m = Inr m'"
    from performWrite_active_inv [OF inv this s] show ?thesis .
  next
    assume a: "performWrite_active env k i ?m0 = Inr m'"
    have "managerInv ?m0"
      using inv s by (rule inv_put_replica) (rule repInv_start [OF inv_nth [OF inv s]])
    from performWrite_active_inv [OF this a] show ?thesis by simp
  qed
qed

lemma foreach_replica_inv:
  assumes step: "\<And>i m m'. managerInv m \<Longrightarrow> body i m = Inr m' \<Longrightarrow> managerInv m'"
  shows "managerInv m \<Longrightarrow> foreach_replica body is m = Inr m' \<Longrightarrow> managerInv m'"
proof (induction "is" arbitrary: m)
  case Nil
  then show ?case by simp
next
  case (Cons i "is")
  from Cons.prems(2) obtain m1 where 1: "body i m = Inr m1"
    and 2: "foreach_replica body is m1 = Inr m'"
    by (cases "body i m") simp_all
  from step [OF Cons.prems(1) 1] have "managerInv m1" .
  from Cons.IH [OF this 2] show ?case .
qed

lemma recoverFromLostOpenReplicas_inv:
  assumes "managerInv m"
  shows "managerInv (recoverFromLostOpenReplicas k m)"
proof (cases "segments m k")
  case None
  with assms show ?thesis by (simp add: recoverFromLostOpenReplicas_def)
next
  case (Some s)
  with assms have si: "segInv s" by (simp add: managerInv_seg)
  then have "segInv (s\<lparr>recoveringFromLostOpenReplicas := False\<rparr>)"
    by (simp add: segInv_def)
  with assms si Some show ?thesis
    by (simp add: recoverFromLostOpenReplicas_def managerInv_put)
qed

lemma performTask_inv:
  assumes inv: "managerInv m" and c: "performTask env k m = Inr m'"
  shows "managerInv m'"
proof -
  from c obtain s where s: "segments m k = Some s"
    by (cases "segments m k") (simp_all add: performTask_def)
  show ?thesis
  proof (cases "freeQueued s")
    case False
    with c s obtain m2 where 1: "foreach_replica (performWrite env k) [0..<length (replicas s)] m = Inr m2"
      and 2: "m' = recoverFromLostOpenReplicas k m2"
      by (cases "foreach_replica (performWrite env k) [0..<length (replicas s)] m")
         (simp_all add: performTask_def)
    from foreach_replica_inv [of "performWrite env k", OF performWrite_inv inv 1]
    have "managerInv m2" .
    with 2 show ?thesis by (simp add: recoverFromLostOpenReplicas_inv)
  next
    case fq: True
    show ?thesis
    proof (cases "recoveringFromLostOpenReplicas s")
      case True
      with fq c s have "m' = recoverFromLostOpenReplicas k m" by (simp add: performTask_def)
      with inv show ?thesis by (simp add: recoverFromLostOpenReplicas_inv)
    next
      case False
      with fq c s obtain m1 where
        1: "foreach_replica (performFree env k) [0..<length (replicas s)] m = Inr m1"
        and 2: "m' = recoverFromLostOpenReplicas k m1
              \<or> m' = recoverFromLostOpenReplicas k (destroyAndFreeReplicatedSegment k m1)"
        by (cases "foreach_replica (performFree env k) [0..<length (replicas s)] m")
           (auto simp: performTask_def split: option.splits if_splits)
      from foreach_replica_inv [of "performFree env k", OF performFree_inv inv 1]
      have "managerInv m1" .
      with 2 show ?thesis
        by (auto simp: recoverFromLostOpenReplicas_inv managerInv_destroy)
    qed
  qed
qed

lemma taskQueue_performTask_inv:
  assumes inv: "managerInv m" and c: "taskQueue_performTask env k m = Inr m'"
  shows "managerInv m'"
proof (cases "segments m k")
  case None
  with c inv show ?thesis by (simp add: taskQueue_performTask_def)
next
  case (Some s)
  show ?thesis
  proof (cases "scheduled s")
    case False
    with Some c inv show ?thesis by (simp add: taskQueue_performTask_def)
  next
    case True
    with Some c have 1: "performTask env k (putSegment k (s\<lparr>scheduled := False\<rparr>) m) = Inr m'"
      by (simp add: taskQueue_performTask_def)
    from inv Some have "segInv (s\<lparr>scheduled := False\<rparr>)"
      by (simp add: segInv_def managerInv_def)
    with inv have "managerInv (putSegment k (s\<lparr>scheduled := False\<rparr>) m)" by (rule managerInv_put)
    from performTask_inv [OF this 1] show ?thesis .
  qed
qed

lemma close_segment_inv:
  assumes "segInv s" and "bytes (queued s) \<le> fst appended" and "close_segment appended s = Inr s'"
  shows "segInv s'"
proof -
  from assms(3) have nc: "\<not> close (queued s)"
    and s': "s' = schedule (s\<lparr>queued := (queued s)\<lparr>close := True, bytes := fst appended\<rparr>,
                              queuedCertificate := snd appended\<rparr>)"
    by (auto simp: close_segment_def split: if_splits)
  from assms(1,2) nc show ?thesis unfolding s'
    by (auto simp: segInv_def list_all_iff intro: repInv_close)
qed

lemma sync_enqueue_inv:
  assumes "segInv s" and "close (queued s) \<longrightarrow> fst appended \<le> bytes (queued s)"
  shows "segInv (sync_enqueue appended s)"
proof (cases "bytes (queued s) < fst appended")
  case False
  with assms(1) show ?thesis by (simp add: sync_enqueue_def)
next
  case True
  with assms(2) have nc: "\<not> close (queued s)" by auto
  from True have "bytes (queued s) \<le> fst appended" by simp
  with assms(1) nc True show ?thesis
    by (auto simp: sync_enqueue_def segInv_def list_all_iff intro: repInv_stretch)
qed

lemma handleBackupFailure_inv:
  assumes "segInv s" and "epoch (queued s) \<noteq> - 1"
  shows "segInv (handleBackupFailure failedId s)"
proof -
  have r: "list_all (repInv (queued s) (openLen s))
             (map (\<lambda>r. if lostReplica failedId r then Replica_failed r else r) (replicas s))"
    using assms(1) by (auto simp: segInv_def list_all_iff repInv_failed)
  then have "list_all (repInv ((queued s)\<lparr>epoch := epoch (queued s) + 1\<rparr>) (openLen s))
             (map (\<lambda>r. if lostReplica failedId r then Replica_failed r else r) (replicas s))"
    using assms(2) by (auto simp: list_all_iff intro: repInv_epoch)
  with r assms(1) show ?thesis
    by (simp add: handleBackupFailure_def handleBackupFailure_loop_eq Let_def segInv_def
        schedule_def)
qed

lemma free_queue_inv:
  assumes "managerInv m" and "free_queue k m = Inr m'"
  shows "managerInv m'"
proof -
  from assms(2) obtain s where s: "segments m k = Some s"
    and m': "m' = putSegment k (schedule (s\<lparr>replicas := map cancelWrite (replicas s),
                                             freeQueued := True\<rparr>)) m"
    by (auto simp: free_queue_def split: option.splits if_splits)
  from assms(1) s have "segInv s" by (rule managerInv_seg)
  then have "segInv (s\<lparr>replicas := map cancelWrite (replicas s), freeQueued := True\<rparr>)"
    by (auto simp: segInv_def list_all_iff intro: repInv_cancel)
  with assms(1) show ?thesis unfolding m' by (simp add: managerInv_put)
qed

lemma openSegment_inv:
  assumes "managerInv m" and "segInv s"
  shows "managerInv (openSegment k preceding s m)"
proof -
  have a: "\<And>b c. segInv (s\<lparr>precedingSegmentOpenCommitted := b,
                            precedingSegmentCloseCommitted := c\<rparr>)"
    using assms(2) by (simp add: segInv_def)
  have b: "\<And>p ps. segments m p = Some ps \<Longrightarrow> segInv (ps\<lparr>followingSegment := Some k\<rparr>)"
    using assms(1) by (simp add: segInv_def managerInv_def)
  from assms a b show ?thesis
    by (auto simp: openSegment_def managerInv_put split: option.splits)
qed

lemma sync_loop_inv:
  "managerInv m \<Longrightarrow> sync_loop k offset steps m = Some (Inr m') \<Longrightarrow> managerInv m'"
proof (induction steps arbitrary: m)
  case Nil
  then show ?case by simp
next
  case (Cons step steps)
  from Cons.prems(2) obtain m1 where 1: "taskQueue_performTask (snd step) (fst step) m = Inr m1"
    and 2: "m' = m1 \<or> sync_loop k offset steps m1 = Some (Inr m')"
    by (auto split: sum.splits option.splits if_splits)
  from taskQueue_performTask_inv [OF Cons.prems(1) 1] have "managerInv m1" .
  with 2 Cons.IH show ?case by blast
qed

lemma sync_inv:
  assumes "managerInv m" and "segments m k = Some s"
    and "close (queued s) \<longrightarrow> fst appended \<le> bytes (queued s)"
    and "sync k offset appended steps m = Some (Inr m')"
  shows "managerInv m'"
proof (cases "syncDone offset s")
  case True
  with assms show ?thesis by (simp add: sync_def)
next
  case False
  with assms(2,4) have 1: "sync_loop k offset steps (putSegment k (sync_enqueue appended s) m)
      = Some (Inr m')"
    by (simp add: sync_def)
  from assms(1,2) have "segInv s" by (rule managerInv_seg)
  then have "segInv (sync_enqueue appended s)" using assms(3) by (rule sync_enqueue_inv)
  with assms(1) have "managerInv (putSegment k (sync_enqueue appended s) m)"
    by (rule managerInv_put)
  from sync_loop_inv [OF this 1] show ?thesis .
qed

lemma reachable_inv: "reachable m \<Longrightarrow> managerInv m"
proof (induction rule: reachable.induct)
  case start
  show ?case by (simp add: managerInv_def ReplicaManager_new_def)
next
  case (openSegment m k preceding master segId normal numReplicas maxBytes appended)
  then show ?case by (simp add: openSegment_inv segInv_new)
next
  case (close m k s appended s')
  then show ?case by (blast intro: managerInv_put close_segment_inv managerInv_seg)
next
  case (sync_enqueue m k s appended)
  then show ?case by (blast intro: managerInv_put sync_enqueue_inv managerInv_seg)
next
  case (sync m k s appended offset steps m')
  then show ?case by (blast intro: sync_inv)
next
  case (free_queue m k m')
  then show ?case by (blast intro: free_queue_inv)
next
  case (free m k s appended steps m')
  from free.hyps(4) obtain m1 where 1: "sync k (- 1) appended steps m = Some (Inr m1)"
    and 2: "free_queue k m1 = Inr m'"
    by (auto simp: free_def split: option.splits sum.splits)
  from sync_inv [OF free.IH free.hyps(2,3) 1] have "managerInv m1" .
  from free_queue_inv [OF this 2] show ?case .
next
  case (handleBackupFailure m k s failedId)
  then show ?case
    by (simp add: handleBackupFailure_at_def managerInv_put handleBackupFailure_inv managerInv_seg)
next
  case (performTask m env k m')
  then show ?case by (blast intro: performTask_inv)
next
  case (taskQueue_performTask m env k m')
  then show ?case by (blast intro: taskQueue_performTask_inv)
next
  case (replicationEpochConfirmed m)
  then show ?case by (simp add: replicationEpochConfirmed_def)
qed

text \<open>
  Claim C5.  In every reachable state, every replica of every segment satisfies
  \<open>committed \<le> acked \<le> sent \<le> queued\<close>, componentwise on open, bytes, close and epoch.
\<close>

theorem replica_progress_ordered:
  assumes "reachable m" and "segments m k = Some s" and "r \<in> set (replicas s)"
  shows "Progress_le (committed r) (acked r) \<and> Progress_le (acked r) (sent r)
     \<and> Progress_le (sent r) (queued s)"
proof -
  from reachable_inv [OF assms(1)] assms(2) have "segInv s" by (rule managerInv_seg)
  with assms(3) have "repInv (queued s) (openLen s) r" by (simp add: segInv_def list_all_iff)
  then show ?thesis by (simp add: repInv_def)
qed

lemma performTasks_reachable:
  "reachable m \<Longrightarrow> performTasks k envs m = Inr m' \<Longrightarrow> reachable m'"
proof (induction envs arbitrary: m)
  case Nil
  then show ?case by simp
next
  case (Cons env envs)
  from Cons.prems(2) obtain m1 where 1: "taskQueue_performTask env k m = Inr m1"
    and 2: "performTasks k envs m1 = Inr m'"
    by (cases "taskQueue_performTask env k m") simp_all
  from Cons.prems(1) 1 have "reachable m1" by (rule reachable.taskQueue_performTask)
  from Cons.IH [OF this 2] show ?case .
qed

lemma reachable_freshManager: "reachable freshManager"
proof -
  have "freshManager =
      openSegment 0 None (ReplicatedSegment_new (ServerId 99 0) 88 True 1 30 (10, 7))
        ReplicaManager_new"
    by (simp add: freshManager_def managerOf_def openSegment_def ReplicaManager_new_def
        putSegment_def)
  moreover have "segments ReplicaManager_new 0 = None"
    by (simp add: ReplicaManager_new_def)
  ultimately show ?thesis
    using reachable.openSegment [OF reachable.start, of 0 None "ServerId 99 0" 88 True 1 30 "(10, 7)"]
    by simp
qed

theorem replica_progress_ordered_witness:
  "\<exists>m s r. reachable m \<and> segments m 0 = Some s \<and> r \<in> set (replicas s)
     \<and> committed r = Progress_new
     \<and> sent r = \<lparr>open = True, bytes = 10, epoch = 1, close = False\<rparr>
     \<and> queued s = \<lparr>open = True, bytes = 20, epoch = 1, close = False\<rparr>
     \<and> Progress_le (committed r) (acked r) \<and> Progress_le (acked r) (sent r)
     \<and> Progress_le (sent r) (queued s)"
proof -
  have "\<exists>m1 s1 m2 s2 m3 s3 r.
      performTasks 0 [exampleEnv, exampleEnv] freshManager = Inr m1
      \<and> segments m1 0 = Some s1 \<and> \<not> close (queued s1)
      \<and> sync 0 20 (20, 9) [(0, exampleEnv), (0, exampleEnv)] m1 = Some (Inr m2)
      \<and> segments m2 0 = Some s2 \<and> epoch (queued s2) \<noteq> - 1
      \<and> performTasks 0 [replacementEnv] (handleBackupFailure_at backup1 0 m2) = Inr m3
      \<and> segments m3 0 = Some s3 \<and> r \<in> set (replicas s3)
      \<and> committed r = Progress_new
      \<and> sent r = \<lparr>open = True, bytes = 10, epoch = 1, close = False\<rparr>
      \<and> queued s3 = \<lparr>open = True, bytes = 20, epoch = 1, close = False\<rparr>"
    by (simp add: evalDefs)
  then obtain m1 s1 m2 s2 m3 s3 r where
    1: "performTasks 0 [exampleEnv, exampleEnv] freshManager = Inr m1"
    and s1: "segments m1 0 = Some s1" "\<not> close (queued s1)"
    and 2: "sync 0 20 (20, 9) [(0, exampleEnv), (0, exampleEnv)] m1 = Some (Inr m2)"
    and s2: "segments m2 0 = Some s2" "epoch (queued s2) \<noteq> - 1"
    and 3: "performTasks 0 [replacementEnv] (handleBackupFailure_at backup1 0 m2) = Inr m3"
    and s3: "segments m3 0 = Some s3" "r \<in> set (replicas s3)"
    and r: "committed r = Progress_new"
      "sent r = \<lparr>open = True, bytes = 10, epoch = 1, close = False\<rparr>"
      "queued s3 = \<lparr>open = True, bytes = 20, epoch = 1, close = False\<rparr>"
    by blast
  from reachable_freshManager 1 have "reachable m1" by (rule performTasks_reachable)
  from this s1(1) _ 2 have "reachable m2" by (rule reachable.sync) (simp add: s1(2))
  from this s2 have "reachable (handleBackupFailure_at backup1 0 m2)"
    by (rule reachable.handleBackupFailure)
  from this 3 have m3: "reachable m3" by (rule performTasks_reachable)
  from replica_progress_ordered [OF m3 s3] m3 s3 r show ?thesis by blast
qed

end
